theory Spec2Isabelle
  imports Main "HOL-Library.Word"
begin

section \<open>Results of fallible operations\<close>

text \<open>
  The C++ code has three ways of not producing a value: a failed \<open>assert\<close> (only when
  \<open>USE_ASSERT\<close> is defined), a shift whose amount is not smaller than the width of the
  (promoted) operand, which the language leaves undefined, and a read of the message
  vector past its end. Each one is a value of \<open>error\<close>; an operation that can fail
  returns \<open>error + 'a\<close>, with \<open>Inl\<close> the failure.

  \<open>USE_ASSERT\<close> is a compile-time macro; it is the boolean parameter \<open>ua\<close> of every
  function whose body tests it.
\<close>

datatype error = Assertion_failed | Undefined_shift | Out_of_bounds

definition bind_result :: "error + 'a \<Rightarrow> ('a \<Rightarrow> error + 'b) \<Rightarrow> error + 'b" where
  "bind_result r k = (case r of Inl e \<Rightarrow> Inl e | Inr v \<Rightarrow> k v)"

section \<open>BitwiseINT: operations on built-in unsigned integers\<close>

text \<open>
  \<open>BitwiseINT<T>\<close> with \<open>T\<close> one of \<open>uint8_t\<close>, \<open>uint32_t\<close>, \<open>uint64_t\<close> is modelled
  over \<open>'a word\<close>. The shift amount has type \<open>unsigned int\<close>, a \<open>32 word\<close>.
  \<open>constant\<close> is a reserved word of the theory language, so \<open>BitwiseINT::constant\<close>
  is \<open>constant_INT\<close>. The underscore-prefixed members (\<open>_AND\<close>, \<open>_XOR\<close>,
  \<open>_ROTR\<close>, ...) only forward to the members without underscore and are not modelled
  separately.
\<close>

definition AND :: "'a::len word \<Rightarrow> 'a word \<Rightarrow> 'a word" where
  "AND x y = and x y"

definition OR :: "'a::len word \<Rightarrow> 'a word \<Rightarrow> 'a word" where
  "OR x y = or x y"

definition XOR :: "'a::len word \<Rightarrow> 'a word \<Rightarrow> 'a word" where
  "XOR x y = xor x y"

definition CMPLMNT :: "'a::len word \<Rightarrow> 'a word" where
  "CMPLMNT x = not x"

definition ADDMOD :: "'a::len word \<Rightarrow> 'a word \<Rightarrow> 'a word" where
  "ADDMOD x y = x + y"

definition constant_INT :: "'a::len word \<Rightarrow> 'a word" where
  "constant_INT x = x"

text \<open>
  \<open>x << n\<close> and \<open>x >> n\<close>: the operand is promoted first (\<open>uint8_t\<close> to the 32-bit
  \<open>int\<close>; \<open>uint32_t\<close> and \<open>uint64_t\<close> keep their width), the shift is undefined when
  \<open>n\<close> is not smaller than the promoted width, and the result is converted back to
  \<open>T\<close>.
\<close>

definition SHL :: "'a::len word \<Rightarrow> 32 word \<Rightarrow> error + 'a word" where
  "SHL x n = (if unat n < max 32 LENGTH('a) then Inr (push_bit (unat n) x)
              else Inl Undefined_shift)"

definition SHR :: "'a::len word \<Rightarrow> 32 word \<Rightarrow> error + 'a word" where
  "SHR x n = (if unat n < max 32 LENGTH('a) then Inr (drop_bit (unat n) x)
              else Inl Undefined_shift)"

text \<open>
  \<open>sizeof(T) * CHAR_BIT - n\<close> is computed in \<open>size_t\<close> and converted to the
  \<open>unsigned int\<close> parameter of the shift: a subtraction modulo \<open>2 ^ 32\<close>.
\<close>

definition ROTL :: "bool \<Rightarrow> 'a::len word \<Rightarrow> 32 word \<Rightarrow> error + 'a word" where
  "ROTL ua x n =
     (if ua \<and> \<not> unat n \<le> LENGTH('a) then Inl Assertion_failed
      else bind_result (SHL x n) (\<lambda>hi.
           bind_result (SHR x (word_of_nat LENGTH('a) - n)) (\<lambda>lo.
           Inr (OR hi lo))))"

definition ROTR :: "bool \<Rightarrow> 'a::len word \<Rightarrow> 32 word \<Rightarrow> error + 'a word" where
  "ROTR ua x n =
     (if ua \<and> \<not> unat n \<le> LENGTH('a) then Inl Assertion_failed
      else bind_result (SHR x n) (\<lambda>lo.
           bind_result (SHL x (word_of_nat LENGTH('a) - n)) (\<lambda>hi.
           Inr (OR lo hi))))"

section \<open>SHA\_Functions: the round functions\<close>

definition Ch :: "'a::len word \<Rightarrow> 'a word \<Rightarrow> 'a word \<Rightarrow> 'a word" where
  "Ch x y z = XOR (AND x y) (AND (CMPLMNT x) z)"

definition Parity :: "'a::len word \<Rightarrow> 'a word \<Rightarrow> 'a word \<Rightarrow> 'a word" where
  "Parity x y z = XOR (XOR x y) z"

definition Maj :: "'a::len word \<Rightarrow> 'a word \<Rightarrow> 'a word \<Rightarrow> 'a word" where
  "Maj x y z = XOR (XOR (AND x y) (AND x z)) (AND y z)"

definition f :: "'a::len word \<Rightarrow> 'a word \<Rightarrow> 'a word \<Rightarrow> nat \<Rightarrow> 'a word" where
  "f x y z round =
     (if round < 20 then Ch x y z
      else if round < 40 then Parity x y z
      else if round < 60 then Maj x y z
      else Parity x y z)"

text \<open>
  The private helper \<open>SIGMA\<close> is named \<open>SIGMA_fn\<close>: \<open>SIGMA\<close> is reserved for the
  dependent sum of sets in HOL.
\<close>

definition SIGMA_fn :: "bool \<Rightarrow> 'a::len word \<Rightarrow> 32 word \<Rightarrow> 32 word \<Rightarrow> 32 word \<Rightarrow> error + 'a word" where
  "SIGMA_fn ua x a b c =
     bind_result (ROTR ua x a) (\<lambda>ra.
     bind_result (ROTR ua x b) (\<lambda>rb.
     bind_result (ROTR ua x c) (\<lambda>rc.
     Inr (XOR (XOR ra rb) rc))))"

definition sigma :: "bool \<Rightarrow> 'a::len word \<Rightarrow> 32 word \<Rightarrow> 32 word \<Rightarrow> 32 word \<Rightarrow> error + 'a word" where
  "sigma ua x a b c =
     bind_result (ROTR ua x a) (\<lambda>ra.
     bind_result (ROTR ua x b) (\<lambda>rb.
     bind_result (SHR x c) (\<lambda>sc.
     Inr (XOR (XOR ra rb) sc))))"

definition SIGMA_256_0 :: "bool \<Rightarrow> 'a::len word \<Rightarrow> error + 'a word" where
  "SIGMA_256_0 ua x = SIGMA_fn ua x 2 13 22"

definition SIGMA_256_1 :: "bool \<Rightarrow> 'a::len word \<Rightarrow> error + 'a word" where
  "SIGMA_256_1 ua x = SIGMA_fn ua x 6 11 25"

definition sigma_256_0 :: "bool \<Rightarrow> 'a::len word \<Rightarrow> error + 'a word" where
  "sigma_256_0 ua x = sigma ua x 7 18 3"

definition sigma_256_1 :: "bool \<Rightarrow> 'a::len word \<Rightarrow> error + 'a word" where
  "sigma_256_1 ua x = sigma ua x 17 19 10"

definition SIGMA_512_0 :: "bool \<Rightarrow> 'a::len word \<Rightarrow> error + 'a word" where
  "SIGMA_512_0 ua x = SIGMA_fn ua x 28 34 39"

definition SIGMA_512_1 :: "bool \<Rightarrow> 'a::len word \<Rightarrow> error + 'a word" where
  "SIGMA_512_1 ua x = SIGMA_fn ua x 14 18 41"

definition sigma_512_0 :: "bool \<Rightarrow> 'a::len word \<Rightarrow> error + 'a word" where
  "sigma_512_0 ua x = sigma ua x 1 8 7"

definition sigma_512_1 :: "bool \<Rightarrow> 'a::len word \<Rightarrow> error + 'a word" where
  "sigma_512_1 ua x = sigma ua x 19 61 6"

section \<open>SHA\_Base: padding\<close>

datatype SHA_BlockSize = BLOCK_512 | BLOCK_1024

text \<open>\<open>std::size_t\<close> and \<open>std::uint64_t\<close> are 64-bit words; a \<open>char\<close> is an \<open>8 word\<close>.\<close>

definition blockSizeBits :: "SHA_BlockSize \<Rightarrow> 64 word" where
  "blockSizeBits BLK = (case BLK of BLOCK_512 \<Rightarrow> 512 | BLOCK_1024 \<Rightarrow> 1024)"

definition wordSizeBits :: "SHA_BlockSize \<Rightarrow> 64 word" where
  "wordSizeBits BLK = (case BLK of BLOCK_512 \<Rightarrow> 32 | BLOCK_1024 \<Rightarrow> 64)"

text \<open>
  The output stream is the list of the bytes written to it so far; \<open>append\<close> writes one
  byte and advances the bit count, which it takes by reference, by \<open>CHAR_BIT\<close>.
  It is named \<open>append_byte\<close> (\<open>append\<close> is the list concatenation of HOL).
\<close>

definition append_byte :: "8 word list \<times> 64 word \<Rightarrow> 8 word \<Rightarrow> 8 word list \<times> 64 word" where
  "append_byte s c = (fst s @ [c], snd s + 8)"

text \<open>
  The \<open>while\<close> loop of \<open>padMessage\<close> that writes zero bytes. It has no bound in the
  source, so it is a partial function: \<open>None\<close> is the loop that never exits.
\<close>

partial_function (option) padMessage_zeros ::
  "SHA_BlockSize \<Rightarrow> 8 word list \<times> 64 word \<Rightarrow> (8 word list \<times> 64 word) option" where
  "padMessage_zeros BLK s =
     (if blockSizeBits BLK - 2 * wordSizeBits BLK \<noteq> snd s mod blockSizeBits BLK
      then padMessage_zeros BLK (append_byte s 0x00)
      else Some s)"

declare padMessage_zeros.simps [code]

definition padMessage ::
  "SHA_BlockSize \<Rightarrow> 8 word list \<times> 64 word \<Rightarrow> (8 word list \<times> 64 word) option" where
  "padMessage BLK s =
     (let msgLengthBits = snd s
      in case padMessage_zeros BLK (append_byte s 0x80) of
           None \<Rightarrow> None
         | Some s1 \<Rightarrow>
             (let s2 = (if BLK = BLOCK_1024
                        then fold (\<lambda>i t. append_byte t 0x00) [0 ..< 8] s1
                        else s1)
              in Some (fold (\<lambda>i t. append_byte t
                                 (ucast (and (drop_bit (i * 8) msgLengthBits) 0xff)))
                            (rev [0 ..< 8]) s2)))"

definition padNeeded :: "SHA_BlockSize \<Rightarrow> 64 word \<Rightarrow> bool" where
  "padNeeded BLK lengthBits \<longleftrightarrow> 0 = lengthBits \<or> 0 \<noteq> lengthBits mod blockSizeBits BLK"

text \<open>
  Reading aids for the statements about padding: the bytes a call appended to the
  stream, and a byte string read as a big-endian natural number.
\<close>

definition suffix_of :: "8 word list \<times> 64 word \<Rightarrow> 8 word list \<times> 64 word \<Rightarrow> 8 word list" where
  "suffix_of s s' = drop (length (fst s)) (fst s')"

definition be_nat :: "8 word list \<Rightarrow> nat" where
  "be_nat bs = foldl (\<lambda>a b. a * 256 + unat b) 0 bs"

definition trailing :: "nat \<Rightarrow> 'b list \<Rightarrow> 'b list" where
  "trailing n xs = drop (length xs - n) xs"

text \<open>The residue at which the zero-padding loop stops, as a natural number.\<close>

definition stop_residue :: "SHA_BlockSize \<Rightarrow> nat" where
  "stop_residue BLK = unat (blockSizeBits BLK - 2 * wordSizeBits BLK)"

text \<open>The byte of the length field that the last loop writes at index \<open>i\<close>.\<close>

definition length_byte :: "64 word \<Rightarrow> nat \<Rightarrow> 8 word" where
  "length_byte L i = ucast (and (drop_bit (i * 8) L) 0xff)"

text \<open>
  The shape of every suffix that \<open>padMessage\<close> writes: the byte \<open>0x80\<close>, \<open>n\<close> zero
  bytes, for the 1024-bit blocks eight more zero bytes, and the eight bytes of the bit
  count, most significant first.
\<close>

definition pad_suffix :: "SHA_BlockSize \<Rightarrow> 64 word \<Rightarrow> nat \<Rightarrow> 8 word list" where
  "pad_suffix BLK L n =
     0x80 # replicate n 0 @
     (if BLK = BLOCK_1024 then replicate 8 0 else []) @
     map (length_byte L) (rev [0 ..< 8])"

section \<open>SHA\_Base: the message buffer and the block loop\<close>

text \<open>
  The class hierarchy is a hierarchy of extensible records. \<open>SHA_Base\<close> owns the message
  buffer. Its subclasses \<open>SHA_256\<close> and \<open>SHA_512\<close> add the hash value \<open>m_H\<close>, an array
  of eight words that \<open>SHA_224\<close> and \<open>SHA_384\<close> read as \<open>this->m_H[i]\<close>; the truncating
  classes \<open>SHA_224\<close> and \<open>SHA_384\<close> add the truncated digest (\<open>m_Hleft224\<close>, an array of
  seven words, respectively \<open>m_Hleft384\<close>, an array of six words; here \<open>m_Hleft\<close>) and the
  flag \<open>m_setDigest\<close>. A fixed-size array is a list of that length; \<open>a[i] = v\<close> is
  \<open>a[i := v]\<close>.
\<close>

record 'w SHA_Base =
  m_message :: "'w list"

record 'w SHA_2 = "'w SHA_Base" +
  m_H :: "'w list"

record 'w SHA_trunc = "'w SHA_2" +
  m_Hleft :: "'w list"
  m_setDigest :: bool

definition msgInput :: "'w \<Rightarrow> ('w, 'z) SHA_Base_scheme \<Rightarrow> ('w, 'z) SHA_Base_scheme" where
  "msgInput a s = s\<lparr>m_message := m_message s @ [a]\<rparr>"

definition msgInput_vector :: "'w list \<Rightarrow> ('w, 'z) SHA_Base_scheme \<Rightarrow> ('w, 'z) SHA_Base_scheme" where
  "msgInput_vector a s = fold msgInput a s"

definition clearMessage :: "('w, 'z) SHA_Base_scheme \<Rightarrow> ('w, 'z) SHA_Base_scheme" where
  "clearMessage s = s\<lparr>m_message := []\<rparr>"

text \<open>\<open>m_message[index++]\<close>: a read past the end of the vector is an error.\<close>

definition msgWord :: "('w, 'z) SHA_Base_scheme \<Rightarrow> nat \<Rightarrow> error + 'w \<times> nat" where
  "msgWord s index =
     (if index < length (m_message s) then Inr (m_message s ! index, index + 1)
      else Inl Out_of_bounds)"

text \<open>
  \<open>m_message.size() * wordSizeBits()\<close> is a product of two \<open>size_t\<close>: it wraps modulo
  \<open>2 ^ 64\<close>.
\<close>

definition inputOK :: "SHA_BlockSize \<Rightarrow> ('w, 'z) SHA_Base_scheme \<Rightarrow> bool" where
  "inputOK BLK s =
     (let msgSizeBits = word_of_nat (length (m_message s)) * wordSizeBits BLK
      in m_message s \<noteq> [] \<and> 0 = msgSizeBits mod blockSizeBits BLK)"

text \<open>
  The hooks that \<open>computeHash\<close> calls on the derived class through the CRTP pointer.
  \<open>blockHooks\<close> stands for the four calls of the loop body after the block has been
  read: the rest of \<open>prepMsgSchedule\<close>, \<open>initWorkingVars\<close>, \<open>workingLoop\<close> and
  \<open>updateHash\<close>; it maps the sixteen words of the block and the hash value to the next
  hash value.
\<close>

record ('w, 's) SHA_hooks =
  initHashValue :: "'s \<Rightarrow> 's"
  blockHooks :: "'w list \<Rightarrow> 'w list \<Rightarrow> error + 'w list"
  afterHash :: "'s \<Rightarrow> 's"

text \<open>
  Modelled from the spec: \<open>prepMsgSchedule\<close> is defined in SHA\_256.hpp and SHA\_512.hpp,
  which are not under src/. Schedule entries 0..15 are the 16 block words verbatim; it
  reads them with \<open>msgWord\<close>, which advances the index of the caller.
\<close>

fun readBlock :: "('w, 'z) SHA_Base_scheme \<Rightarrow> nat \<Rightarrow> nat \<Rightarrow> error + 'w list \<times> nat" where
  "readBlock s index 0 = Inr ([], index)"
| "readBlock s index (Suc n) =
     (case msgWord s index of
        Inl e \<Rightarrow> Inl e
      | Inr (w, i) \<Rightarrow>
          (case readBlock s i n of
             Inl e \<Rightarrow> Inl e
           | Inr (ws, j) \<Rightarrow> Inr (w # ws, j)))"

text \<open>
  The \<open>while\<close> loop of \<open>computeHash\<close> over the blocks of the message. \<open>computeHash\<close>
  works on the object in place, so a run that fails leaves the object as it was when
  the failure occurred: the loop returns the error together with the hash value
  reached by then, and \<open>computeHash\<close> the error together with the state of the object
  at that moment.
\<close>

function hashLoop ::
  "('w list \<Rightarrow> 'w list \<Rightarrow> error + 'w list) \<Rightarrow> ('w, 'z) SHA_Base_scheme \<Rightarrow> nat \<Rightarrow> 'w list
     \<Rightarrow> error \<times> 'w list + 'w list" where
  "hashLoop blk s msgIndex H =
     (if msgIndex < length (m_message s)
      then (case readBlock s msgIndex 16 of
              Inl e \<Rightarrow> Inl (e, H)
            | Inr (M, i) \<Rightarrow>
                (case blk M H of
                   Inl e \<Rightarrow> Inl (e, H)
                 | Inr H' \<Rightarrow> hashLoop blk s i H'))
      else Inr H)"
  by pat_completeness auto
termination
proof (relation "measure (\<lambda>(blk, s, msgIndex, H). length (m_message s) - msgIndex)")
  show "wf (measure (\<lambda>(blk, s :: ('w, 'z) SHA_Base_scheme, msgIndex, H :: 'w list).
              length (m_message s) - msgIndex))"
    by simp
next
  fix blk :: "'w list \<Rightarrow> 'w list \<Rightarrow> error + 'w list"
    and s :: "('w, 'z) SHA_Base_scheme" and msgIndex :: nat and H H' M :: "'w list"
    and x :: "'w list \<times> nat" and i :: nat
  assume less: "msgIndex < length (m_message s)"
    and "readBlock s msgIndex 16 = Inr x" and "(M, i) = x"
  then have rd: "readBlock s msgIndex 16 = Inr (M, i)" by simp
  have "readBlock s index n = Inr (ws, j) \<Longrightarrow> j = index + n" for index n ws j
  proof (induction n arbitrary: index ws j)
    case 0
    then show ?case by simp
  next
    case (Suc n)
    then show ?case
      by (fastforce simp add: msgWord_def split: sum.splits if_splits prod.splits)
  qed
  from this [OF rd] less
  show "((blk, s, i, H'), (blk, s, msgIndex, H))
          \<in> measure (\<lambda>(blk, s, msgIndex, H). length (m_message s) - msgIndex)"
    by simp
qed

declare hashLoop.simps [simp del]

definition computeHash ::
  "bool \<Rightarrow> SHA_BlockSize \<Rightarrow> ('w, ('w, 'z) SHA_2_scheme) SHA_hooks \<Rightarrow> ('w, 'z) SHA_2_scheme
     \<Rightarrow> error \<times> ('w, 'z) SHA_2_scheme + ('w, 'z) SHA_2_scheme" where
  "computeHash ua BLK ptr s =
     (if ua \<and> \<not> inputOK BLK s then Inl (Assertion_failed, s)
      else (let s1 = initHashValue ptr s
            in case hashLoop (blockHooks ptr) s1 0 (m_H s1) of
                 Inl (e, H) \<Rightarrow> Inl (e, s1\<lparr>m_H := H\<rparr>)
               | Inr H \<Rightarrow> Inr (afterHash ptr (s1\<lparr>m_H := H\<rparr>))))"

section \<open>SHA\_224 and SHA\_384: the truncating variants\<close>

definition SHA_224_a :: "32 word list" where
  "SHA_224_a =
     [0xc1059ed8, 0x367cd507, 0x3070dd17, 0xf70e5939,
      0xffc00b31, 0x68581511, 0x64f98fa7, 0xbefa4fa4]"

definition SHA_224_initHashValue :: "(32 word, 'z) SHA_2_scheme \<Rightarrow> (32 word, 'z) SHA_2_scheme" where
  "SHA_224_initHashValue s =
     s\<lparr>m_H := fold (\<lambda>i H. H[i := constant_INT (SHA_224_a ! i)]) [0 ..< 8] (m_H s)\<rparr>"

definition SHA_224_afterHash :: "(32 word, 'z) SHA_trunc_scheme \<Rightarrow> (32 word, 'z) SHA_trunc_scheme" where
  "SHA_224_afterHash s = s\<lparr>m_setDigest := True\<rparr>"

text \<open>\<open>digest\<close> returns the truncated digest and may update the object.\<close>

definition SHA_224_digest ::
  "(32 word, 'z) SHA_trunc_scheme \<Rightarrow> 32 word list \<times> (32 word, 'z) SHA_trunc_scheme" where
  "SHA_224_digest s =
     (let s' = (if m_setDigest s
                then s\<lparr>m_Hleft := fold (\<lambda>i l. l[i := m_H s ! i]) [0 ..< 7] (m_Hleft s),
                       m_setDigest := False\<rparr>
                else s)
      in (m_Hleft s', s'))"

definition SHA_384_a :: "64 word list" where
  "SHA_384_a =
     [0xcbbb9d5dc1059ed8, 0x629a292a367cd507,
      0x9159015a3070dd17, 0x152fecd8f70e5939,
      0x67332667ffc00b31, 0x8eb44a8768581511,
      0xdb0c2e0d64f98fa7, 0x47b5481dbefa4fa4]"

definition SHA_384_initHashValue :: "(64 word, 'z) SHA_2_scheme \<Rightarrow> (64 word, 'z) SHA_2_scheme" where
  "SHA_384_initHashValue s =
     s\<lparr>m_H := fold (\<lambda>i H. H[i := constant_INT (SHA_384_a ! i)]) [0 ..< 8] (m_H s)\<rparr>"

definition SHA_384_afterHash :: "(64 word, 'z) SHA_trunc_scheme \<Rightarrow> (64 word, 'z) SHA_trunc_scheme" where
  "SHA_384_afterHash s = s\<lparr>m_setDigest := True\<rparr>"

definition SHA_384_digest ::
  "(64 word, 'z) SHA_trunc_scheme \<Rightarrow> 64 word list \<times> (64 word, 'z) SHA_trunc_scheme" where
  "SHA_384_digest s =
     (let s' = (if m_setDigest s
                then s\<lparr>m_Hleft := fold (\<lambda>i l. l[i := m_H s ! i]) [0 ..< 6] (m_Hleft s),
                       m_setDigest := False\<rparr>
                else s)
      in (m_Hleft s', s'))"

text \<open>
  The constructors set \<open>m_setDigest\<close> to false and leave the arrays indeterminate:
  their initial contents \<open>H0\<close> (eight words) and \<open>L0\<close> (seven respectively six words)
  are parameters.
\<close>

definition SHA_trunc_new :: "'w list \<Rightarrow> 'w list \<Rightarrow> 'w SHA_trunc" where
  "SHA_trunc_new H0 L0 = \<lparr>m_message = [], m_H = H0, m_Hleft = L0, m_setDigest = False\<rparr>"

text \<open>A fresh object of a non-truncating class, likewise.\<close>

definition SHA_2_new :: "'w list \<Rightarrow> 'w SHA_2" where
  "SHA_2_new H0 = \<lparr>m_message = [], m_H = H0\<rparr>"

section \<open>SHA\_256 and SHA\_512: the block hooks\<close>

text \<open>
  Modelled from the spec: SHA\_256.hpp and SHA\_512.hpp are not under src/. The
  definitions of this section follow the specification of the block loop (schedule
  recurrence, working variables, compression rounds, folding by modular addition) and
  FIPS 180-4, which it names for the round constants and the initial hash values; they
  call the round functions of \<open>SHA_Functions\<close> defined above. A family fixes the four
  rotate-mix functions and the table of round constants, whose length is the number of
  rounds.
\<close>

record 'w SHA_family =
  Sigma0 :: "bool \<Rightarrow> 'w \<Rightarrow> error + 'w"
  Sigma1 :: "bool \<Rightarrow> 'w \<Rightarrow> error + 'w"
  sigma0 :: "bool \<Rightarrow> 'w \<Rightarrow> error + 'w"
  sigma1 :: "bool \<Rightarrow> 'w \<Rightarrow> error + 'w"
  K :: "'w list"

text \<open>
  Modelled from the spec: schedule entries \<open>0..15\<close> are the block words; entry \<open>t\<close> is
  \<open>sigma1 (W (t - 2)) + W (t - 7) + sigma0 (W (t - 15)) + W (t - 16)\<close>.
\<close>

fun expandSchedule ::
  "'a::len word SHA_family \<Rightarrow> bool \<Rightarrow> nat list \<Rightarrow> 'a word list \<Rightarrow> error + 'a word list" where
  "expandSchedule fam ua [] W = Inr W"
| "expandSchedule fam ua (t # ts) W =
     (case sigma1 fam ua (W ! (t - 2)) of
        Inl e \<Rightarrow> Inl e
      | Inr x1 \<Rightarrow>
          (case sigma0 fam ua (W ! (t - 15)) of
             Inl e \<Rightarrow> Inl e
           | Inr x0 \<Rightarrow>
               expandSchedule fam ua ts
                 (W @ [ADDMOD (ADDMOD (ADDMOD x1 (W ! (t - 7))) x0) (W ! (t - 16))])))"

definition prepMsgSchedule ::
  "'a::len word SHA_family \<Rightarrow> bool \<Rightarrow> 'a word list \<Rightarrow> error + 'a word list" where
  "prepMsgSchedule fam ua M = expandSchedule fam ua [16 ..< length (K fam)] M"

text \<open>Modelled from the spec: the working variables \<open>a..h\<close> are initialised from the hash value.\<close>

definition initWorkingVars :: "'w list \<Rightarrow> 'w list" where
  "initWorkingVars H = take 8 H"

text \<open>
  Modelled from the spec: one round computes two temporaries from \<open>Sigma1\<close>/\<open>Ch\<close> and
  \<open>Sigma0\<close>/\<open>Maj\<close>, rotates the eight working variables and adds the round constant and
  the schedule word.
\<close>

definition workingRound ::
  "'a::len word SHA_family \<Rightarrow> bool \<Rightarrow> 'a word list \<Rightarrow> nat \<Rightarrow> 'a word list \<Rightarrow> error + 'a word list" where
  "workingRound fam ua W t v =
     (let a = v ! 0; b = v ! 1; c = v ! 2; d = v ! 3;
          e = v ! 4; f = v ! 5; g = v ! 6; h = v ! 7
      in case Sigma1 fam ua e of
           Inl err \<Rightarrow> Inl err
         | Inr S1 \<Rightarrow>
             (case Sigma0 fam ua a of
                Inl err \<Rightarrow> Inl err
              | Inr S0 \<Rightarrow>
                  (let T1 = ADDMOD (ADDMOD (ADDMOD (ADDMOD h S1) (Ch e f g)) (K fam ! t)) (W ! t);
                       T2 = ADDMOD S0 (Maj a b c)
                   in Inr [ADDMOD T1 T2, a, b, c, ADDMOD d T1, e, f, g])))"

fun workingRounds ::
  "'a::len word SHA_family \<Rightarrow> bool \<Rightarrow> 'a word list \<Rightarrow> nat list \<Rightarrow> 'a word list \<Rightarrow> error + 'a word list" where
  "workingRounds fam ua W [] v = Inr v"
| "workingRounds fam ua W (t # ts) v =
     (case workingRound fam ua W t v of
        Inl e \<Rightarrow> Inl e
      | Inr v' \<Rightarrow> workingRounds fam ua W ts v')"

definition workingLoop ::
  "'a::len word SHA_family \<Rightarrow> bool \<Rightarrow> 'a word list \<Rightarrow> 'a word list \<Rightarrow> error + 'a word list" where
  "workingLoop fam ua W v = workingRounds fam ua W [0 ..< length (K fam)] v"

text \<open>Modelled from the spec: the working variables are folded into the hash value by modular addition.\<close>

definition updateHash :: "'a::len word list \<Rightarrow> 'a word list \<Rightarrow> 'a word list" where
  "updateHash H v = fold (\<lambda>i H. H[i := ADDMOD (H ! i) (v ! i)]) [0 ..< 8] H"

definition processBlock ::
  "'a::len word SHA_family \<Rightarrow> bool \<Rightarrow> 'a word list \<Rightarrow> 'a word list \<Rightarrow> error + 'a word list" where
  "processBlock fam ua M H =
     (case prepMsgSchedule fam ua M of
        Inl e \<Rightarrow> Inl e
      | Inr W \<Rightarrow>
          (case workingLoop fam ua W (initWorkingVars H) of
             Inl e \<Rightarrow> Inl e
           | Inr v \<Rightarrow> Inr (updateHash H v)))"

text \<open>
  Modelled from the spec: the round constants of FIPS 180-4, sections 4.2.2 and 4.2.3,
  the leading 32 respectively 64 bits of the fractional parts of the cube roots of the
  first 64 respectively 80 primes, written as decimal numerals.
\<close>

definition K_256 :: "32 word list" where
  "K_256 =
    [1116352408, 1899447441, 3049323471, 3921009573, 961987163, 1508970993,
     2453635748, 2870763221, 3624381080, 310598401, 607225278, 1426881987,
     1925078388, 2162078206, 2614888103, 3248222580, 3835390401, 4022224774,
     264347078, 604807628, 770255983, 1249150122, 1555081692, 1996064986,
     2554220882, 2821834349, 2952996808, 3210313671, 3336571891, 3584528711,
     113926993, 338241895, 666307205, 773529912, 1294757372, 1396182291,
     1695183700, 1986661051, 2177026350, 2456956037, 2730485921, 2820302411,
     3259730800, 3345764771, 3516065817, 3600352804, 4094571909, 275423344,
     430227734, 506948616, 659060556, 883997877, 958139571, 1322822218,
     1537002063, 1747873779, 1955562222, 2024104815, 2227730452, 2361852424,
     2428436474, 2756734187, 3204031479, 3329325298]"

definition K_512 :: "64 word list" where
  "K_512 =
    [4794697086780616226, 8158064640168781261, 13096744586834688815,
     16840607885511220156, 4131703408338449720, 6480981068601479193,
     10538285296894168987, 12329834152419229976, 15566598209576043074,
     1334009975649890238, 2608012711638119052, 6128411473006802146,
     8268148722764581231, 9286055187155687089, 11230858885718282805,
     13951009754708518548, 16472876342353939154, 17275323862435702243,
     1135362057144423861, 2597628984639134821, 3308224258029322869,
     5365058923640841347, 6679025012923562964, 8573033837759648693,
     10970295158949994411, 12119686244451234320, 12683024718118986047,
     13788192230050041572, 14330467153632333762, 15395433587784984357,
     489312712824947311, 1452737877330783856, 2861767655752347644,
     3322285676063803686, 5560940570517711597, 5996557281743188959,
     7280758554555802590, 8532644243296465576, 9350256976987008742,
     10552545826968843579, 11727347734174303076, 12113106623233404929,
     14000437183269869457, 14369950271660146224, 15101387698204529176,
     15463397548674623760, 17586052441742319658, 1182934255886127544,
     1847814050463011016, 2177327727835720531, 2830643537854262169,
     3796741975233480872, 4115178125766777443, 5681478168544905931,
     6601373596472566643, 7507060721942968483, 8399075790359081724,
     8693463985226723168, 9568029438360202098, 10144078919501101548,
     10430055236837252648, 11840083180663258601, 13761210420658862357,
     14299343276471374635, 14566680578165727644, 15097957966210449927,
     16922976911328602910, 17689382322260857208, 500013540394364858,
     748580250866718886, 1242879168328830382, 1977374033974150939,
     2944078676154940804, 3659926193048069267, 4368137639120453308,
     4836135668995329356, 5532061633213252278, 6448918945643986474,
     6902733635092675308, 7801388544844847127]"

definition SHA_256_family :: "32 word SHA_family" where
  "SHA_256_family =
     \<lparr>Sigma0 = SIGMA_256_0, Sigma1 = SIGMA_256_1,
      sigma0 = sigma_256_0, sigma1 = sigma_256_1, K = K_256\<rparr>"

definition SHA_512_family :: "64 word SHA_family" where
  "SHA_512_family =
     \<lparr>Sigma0 = SIGMA_512_0, Sigma1 = SIGMA_512_1,
      sigma0 = sigma_512_0, sigma1 = sigma_512_1, K = K_512\<rparr>"

text \<open>
  Modelled from the spec: the initial hash values of SHA-256 and SHA-512 (FIPS 180-4,
  sections 5.3.3 and 5.3.5), set like those of SHA-224 and SHA-384; the non-truncating
  variants have no finalisation and their digest is the whole hash value.
\<close>

definition SHA_256_a :: "32 word list" where
  "SHA_256_a =
    [0x6a09e667, 0xbb67ae85, 0x3c6ef372, 0xa54ff53a,
     0x510e527f, 0x9b05688c, 0x1f83d9ab, 0x5be0cd19]"

definition SHA_512_a :: "64 word list" where
  "SHA_512_a =
    [0x6a09e667f3bcc908, 0xbb67ae8584caa73b,
     0x3c6ef372fe94f82b, 0xa54ff53a5f1d36f1,
     0x510e527fade682d1, 0x9b05688c2b3e6c1f,
     0x1f83d9abfb41bd6b, 0x5be0cd19137e2179]"

definition SHA_256_initHashValue :: "(32 word, 'z) SHA_2_scheme \<Rightarrow> (32 word, 'z) SHA_2_scheme" where
  "SHA_256_initHashValue s =
     s\<lparr>m_H := fold (\<lambda>i H. H[i := constant_INT (SHA_256_a ! i)]) [0 ..< 8] (m_H s)\<rparr>"

definition SHA_512_initHashValue :: "(64 word, 'z) SHA_2_scheme \<Rightarrow> (64 word, 'z) SHA_2_scheme" where
  "SHA_512_initHashValue s =
     s\<lparr>m_H := fold (\<lambda>i H. H[i := constant_INT (SHA_512_a ! i)]) [0 ..< 8] (m_H s)\<rparr>"

definition SHA_2_digest :: "('w, 'z) SHA_2_scheme \<Rightarrow> 'w list" where
  "SHA_2_digest s = m_H s"

text \<open>
  The four engines as the hooks that \<open>computeHash\<close> reaches: \<open>SHA_224\<close> and \<open>SHA_384\<close>
  override \<open>initHashValue\<close> and \<open>afterHash\<close> and inherit the block hooks.
\<close>

definition SHA_256_hooks :: "bool \<Rightarrow> (32 word, (32 word, 'z) SHA_2_scheme) SHA_hooks" where
  "SHA_256_hooks ua =
     \<lparr>initHashValue = SHA_256_initHashValue,
      blockHooks = processBlock SHA_256_family ua,
      afterHash = (\<lambda>s. s)\<rparr>"

definition SHA_224_hooks :: "bool \<Rightarrow> (32 word, (32 word, 'z) SHA_trunc_scheme) SHA_hooks" where
  "SHA_224_hooks ua =
     \<lparr>initHashValue = SHA_224_initHashValue,
      blockHooks = processBlock SHA_256_family ua,
      afterHash = SHA_224_afterHash\<rparr>"

definition SHA_512_hooks :: "bool \<Rightarrow> (64 word, (64 word, 'z) SHA_2_scheme) SHA_hooks" where
  "SHA_512_hooks ua =
     \<lparr>initHashValue = SHA_512_initHashValue,
      blockHooks = processBlock SHA_512_family ua,
      afterHash = (\<lambda>s. s)\<rparr>"

definition SHA_384_hooks :: "bool \<Rightarrow> (64 word, (64 word, 'z) SHA_trunc_scheme) SHA_hooks" where
  "SHA_384_hooks ua =
     \<lparr>initHashValue = SHA_384_initHashValue,
      blockHooks = processBlock SHA_512_family ua,
      afterHash = SHA_384_afterHash\<rparr>"

text \<open>
  The block loop as a plain recursion over the message cut into blocks of sixteen
  words, started from a given hash value: the reference against which \<open>computeHash\<close>
  and the digests are stated.
\<close>

fun hashBlocks ::
  "('w list \<Rightarrow> 'w list \<Rightarrow> error + 'w list) \<Rightarrow> 'w list list \<Rightarrow> 'w list
     \<Rightarrow> error \<times> 'w list + 'w list" where
  "hashBlocks blk [] H = Inr H"
| "hashBlocks blk (M # Ms) H =
     (case blk M H of Inl e \<Rightarrow> Inl (e, H) | Inr H' \<Rightarrow> hashBlocks blk Ms H')"

fun blocksOf :: "nat \<Rightarrow> 'w list \<Rightarrow> 'w list list" where
  "blocksOf 0 msg = []"
| "blocksOf (Suc n) msg = take 16 msg # blocksOf n (drop 16 msg)"

text \<open>The padded one-block message of the three bytes \<open>abc\<close>, as 32-bit words.\<close>

definition abc_512 :: "32 word list" where
  "abc_512 = [0x61626380, 0, 0, 0, 0, 0, 0, 0, 0, 0, 0, 0, 0, 0, 0, 0x18]"

text \<open>
  The block loop of a family over a whole message, started from the hash value \<open>IV\<close>,
  and the engines driven the way a caller drives them: a fresh object, the padded
  message fed with \<open>msgInput\<close>, \<open>computeHash\<close>, \<open>digest\<close>.
\<close>

definition SHA_2_run ::
  "'a::len word SHA_family \<Rightarrow> bool \<Rightarrow> 'a word list \<Rightarrow> 'a word list
     \<Rightarrow> error \<times> 'a word list + 'a word list" where
  "SHA_2_run fam ua IV msg =
     hashBlocks (processBlock fam ua) (blocksOf (length msg div 16) msg) IV"

definition SHA_224_hash :: "bool \<Rightarrow> 32 word list \<Rightarrow> 32 word list \<Rightarrow> 32 word list \<Rightarrow> error + 32 word list" where
  "SHA_224_hash ua H0 L0 msg =
     (case computeHash ua BLOCK_512 (SHA_224_hooks ua) (msgInput_vector msg (SHA_trunc_new H0 L0)) of
        Inl (e, s) \<Rightarrow> Inl e
      | Inr s \<Rightarrow> Inr (fst (SHA_224_digest s)))"

definition SHA_256_hash :: "bool \<Rightarrow> 32 word list \<Rightarrow> 32 word list \<Rightarrow> error + 32 word list" where
  "SHA_256_hash ua H0 msg =
     (case computeHash ua BLOCK_512 (SHA_256_hooks ua)
             (msgInput_vector msg (SHA_2_new H0)) of
        Inl (e, s) \<Rightarrow> Inl e
      | Inr s \<Rightarrow> Inr (SHA_2_digest s))"

text \<open>The same message for the 1024-bit blocks, as 64-bit words.\<close>

definition abc_1024 :: "64 word list" where
  "abc_1024 = [0x6162638000000000, 0, 0, 0, 0, 0, 0, 0, 0, 0, 0, 0, 0, 0, 0, 0x18]"

text \<open>The message schedule of that block for SHA-256, as \<open>prepMsgSchedule\<close> expands it.\<close>

definition abc_schedule :: "32 word list" where
  "abc_schedule =
     [0x61626380, 0x00000000, 0x00000000, 0x00000000, 0x00000000, 0x00000000,
      0x00000000, 0x00000000, 0x00000000, 0x00000000, 0x00000000, 0x00000000,
      0x00000000, 0x00000000, 0x00000000, 0x00000018, 0x61626380, 0x000f0000,
      0x7da86405, 0x600003c6, 0x3e9d7b78, 0x0183fc00, 0x12dcbfdb, 0xe2e2c38e,
      0xc8215c1a, 0xb73679a2, 0xe5bc3909, 0x32663c5b, 0x9d209d67, 0xec8726cb,
      0x702138a4, 0xd3b7973b, 0x93f5997f, 0x3b68ba73, 0xaff4ffc1, 0xf10a5c62,
      0x0a8b3996, 0x72af830a, 0x9409e33e, 0x24641522, 0x9f47bf94, 0xf0a64f5a,
      0x3e246a79, 0x27333ba3, 0x0c4763f2, 0x840abf27, 0x7a290d5d, 0x065c43da,
      0xfb3e89cb, 0xcc7617db, 0xb9e66c34, 0xa9993667, 0x84badedd, 0xc21462bc,
      0x1487472c, 0xb20f7a99, 0xef57b9cd, 0xebe6b238, 0x9fe3095e, 0x78bc8d4b,
      0xa43fcf15, 0x668b2ff8, 0xeeaba2cc, 0x12b1edeb]"

section \<open>Properties\<close>

lemma rotr_as_shifts:
  fixes x :: "'a::len word"
  assumes "0 < n" "n < LENGTH('a)"
  shows "or (drop_bit n x) (push_bit (LENGTH('a) - n) x) = word_rotr n x"
proof (rule bit_word_eqI)
  fix k assume k: "k < LENGTH('a)"
  show "bit (or (drop_bit n x) (push_bit (LENGTH('a) - n) x)) k = bit (word_rotr n x) k"
  proof (cases "k + n < LENGTH('a)")
    case True
    then show ?thesis using k assms
      by (auto simp add: bit_simps bit_word_rotr_iff ac_simps dest: bit_imp_le_length)
  next
    case False
    then have *: "(k + n) mod LENGTH('a) = k + n - LENGTH('a)"
      using k assms by (simp add: mod_if)
    have **: "k - (LENGTH('a) - n) = k + n - LENGTH('a)" using False k assms by simp
    show ?thesis using k assms False
      by (auto simp add: bit_simps bit_word_rotr_iff * ** dest: bit_imp_le_length)
  qed
qed

lemma rotl_as_shifts:
  fixes x :: "'a::len word"
  assumes "0 < n" "n < LENGTH('a)"
  shows "or (push_bit n x) (drop_bit (LENGTH('a) - n) x) = word_rotl n x"
proof (rule bit_word_eqI)
  fix k assume k: "k < LENGTH('a)"
  have m: "n mod LENGTH('a) = n" using assms by simp
  show "bit (or (push_bit n x) (drop_bit (LENGTH('a) - n) x)) k = bit (word_rotl n x) k"
  proof (cases "n \<le> k")
    case True
    then have *: "(k + LENGTH('a) - n) mod LENGTH('a) = k - n"
      using k assms by (simp add: mod_if)
    show ?thesis using k assms True
      by (auto simp add: bit_simps bit_word_rotl_iff m * dest: bit_imp_le_length)
  next
    case False
    then have *: "(k + (LENGTH('a) - n)) mod LENGTH('a) = k + (LENGTH('a) - n)"
      using k assms by simp
    show ?thesis using k assms False
      by (auto simp add: bit_simps bit_word_rotl_iff m * ac_simps dest: bit_imp_le_length)
  qed
qed

lemma unat_width_minus:
  fixes n :: "32 word"
  assumes "unat n \<le> LENGTH('a::len)" "LENGTH('a) \<le> 64"
  shows "unat (word_of_nat LENGTH('a) - n) = LENGTH('a) - unat n"
proof -
  have "unat (word_of_nat LENGTH('a) :: 32 word) = LENGTH('a)"
    using assms(2) by (simp add: unsigned_of_nat take_bit_nat_eq_self)
  moreover from this have "n \<le> word_of_nat LENGTH('a)"
    using assms(1) by (simp add: word_le_nat_alt)
  ultimately show ?thesis by (simp add: unat_sub)
qed

lemma ROTR_rotates:
  fixes x :: "'a::len word"
  assumes "0 < unat n" "unat n < LENGTH('a)" "LENGTH('a) \<le> 64"
  shows "ROTR ua x n = Inr (word_rotr (unat n) x)"
  using assms
  by (auto simp add: ROTR_def SHR_def SHL_def OR_def bind_result_def unat_width_minus
      rotr_as_shifts max_def)

lemma ROTL_rotates:
  fixes x :: "'a::len word"
  assumes "0 < unat n" "unat n < LENGTH('a)" "LENGTH('a) \<le> 64"
  shows "ROTL ua x n = Inr (word_rotl (unat n) x)"
  using assms
  by (auto simp add: ROTL_def SHR_def SHL_def OR_def bind_result_def unat_width_minus
      rotl_as_shifts max_def)

lemma word_rot_zero:
  fixes x :: "'a::len word"
  shows "word_rotl 0 x = x" and "word_rotr 0 x = x"
  by (rule bit_word_eqI; simp add: bit_word_rotl_iff bit_word_rotr_iff)+

lemma ROT_zero_promoted:
  fixes x :: "'a::len word"
  assumes "LENGTH('a) < 32"
  shows "ROTL ua x 0 = Inr x" and "ROTR ua x 0 = Inr x"
proof -
  have w: "unat (word_of_nat LENGTH('a) :: 32 word) = LENGTH('a)"
    using assms by (simp add: unsigned_of_nat take_bit_nat_eq_self)
  have z: "drop_bit LENGTH('a) x = 0" "push_bit LENGTH('a) x = 0"
    by (rule bit_word_eqI; simp add: bit_simps)+
  show "ROTL ua x 0 = Inr x" and "ROTR ua x 0 = Inr x"
    using assms by (simp_all add: ROTL_def ROTR_def SHL_def SHR_def OR_def bind_result_def w z)
qed

lemma ROT_zero_undefined:
  fixes x :: "'a::len word"
  assumes "32 \<le> LENGTH('a)" "LENGTH('a) \<le> 64"
  shows "ROTL ua x 0 = Inl Undefined_shift" and "ROTR ua x 0 = Inl Undefined_shift"
proof -
  have w: "unat (word_of_nat LENGTH('a) :: 32 word) = LENGTH('a)"
    using assms by (simp add: unsigned_of_nat take_bit_nat_eq_self)
  show "ROTL ua x 0 = Inl Undefined_shift" and "ROTR ua x 0 = Inl Undefined_shift"
    using assms by (simp_all add: ROTL_def ROTR_def SHL_def SHR_def bind_result_def w)
qed

text \<open>
  Claim C4, as the code has it. For every word \<open>x\<close> of a built-in unsigned type and every
  amount \<open>n\<close> in \<open>[0, width)\<close>, \<open>ROTL\<close> and \<open>ROTR\<close> return \<open>x\<close> rotated left
  respectively right by \<open>n\<close> bits, with and without \<open>USE_ASSERT\<close>, except for the amount
  \<open>0\<close> on a type of 32 bits or more: there the complementary shift is a shift by the
  full width of an operand that is not promoted (on \<open>uint8_t\<close> the operand is promoted to
  \<open>int\<close> and the amount \<open>0\<close> rotates like every other). With \<open>USE_ASSERT\<close>, every amount
  greater than the width is rejected by the assertion \<open>n <= width\<close>; the amount \<open>width\<close>
  itself passes it.
\<close>
theorem ROTL_ROTR_contract:
  fixes x :: "'a::len word"
  assumes "LENGTH('a) \<le> 64"
  shows "(unat n < LENGTH('a) \<and> (0 < unat n \<or> LENGTH('a) < 32) \<longrightarrow>
            ROTL ua x n = Inr (word_rotl (unat n) x) \<and>
            ROTR ua x n = Inr (word_rotr (unat n) x)) \<and>
         (LENGTH('a) < unat n \<longrightarrow>
            ROTL True x n = Inl Assertion_failed \<and>
            ROTR True x n = Inl Assertion_failed)"
proof (rule conjI; rule impI)
  assume a: "unat n < LENGTH('a) \<and> (0 < unat n \<or> LENGTH('a) < 32)"
  show "ROTL ua x n = Inr (word_rotl (unat n) x) \<and> ROTR ua x n = Inr (word_rotr (unat n) x)"
  proof (cases "0 < unat n")
    case True
    with a assms show ?thesis by (simp add: ROTL_rotates ROTR_rotates)
  next
    case False
    then have n: "n = 0" by (simp add: unat_eq_0)
    from False a have "LENGTH('a) < 32" by simp
    then show ?thesis unfolding n by (simp add: ROT_zero_promoted word_rot_zero)
  qed
next
  assume "LENGTH('a) < unat n"
  then show "ROTL True x n = Inl Assertion_failed \<and> ROTR True x n = Inl Assertion_failed"
    by (simp add: ROTL_def ROTR_def)
qed

theorem ROTL_ROTR_contract_witness:
  "LENGTH(32) \<le> 64 \<and> LENGTH(8) \<le> 64 \<and>
   (unat (8 :: 32 word) < LENGTH(32) \<and> (0 < unat (8 :: 32 word) \<or> LENGTH(32) < 32)) \<and>
   (unat (0 :: 32 word) < LENGTH(8) \<and> (0 < unat (0 :: 32 word) \<or> LENGTH(8) < 32)) \<and>
   LENGTH(32) < unat (33 :: 32 word) \<and>
   ROTL False (0x80000001 :: 32 word) 8 = Inr 0x180 \<and>
   ROTR False (0x80000001 :: 32 word) 8 = Inr 0x01800000 \<and>
   ROTL True (0x81 :: 8 word) 0 = Inr 0x81 \<and>
   ROTR True (0x81 :: 8 word) 0 = Inr 0x81 \<and>
   ROTL True (0x80000001 :: 32 word) 33 = Inl Assertion_failed \<and>
   ROTR True (0x80000001 :: 32 word) 33 = Inl Assertion_failed"
proof -
  have "ROTL False (0x80000001 :: 32 word) 8 = Inr 0x180"
    and "ROTR False (0x80000001 :: 32 word) 8 = Inr 0x01800000"
    by (simp_all add: ROTL_def ROTR_def SHL_def SHR_def OR_def bind_result_def)
  then show ?thesis
    using ROTL_ROTR_contract [where 'a = 32, of 8 False "0x80000001"]
          ROTL_ROTR_contract [where 'a = 8, of 0 True "0x81"]
          ROTL_ROTR_contract [where 'a = 32, of 33 False "0x80000001"]
    by (simp add: word_rot_zero)
qed

text \<open>
  Claim C4 as stated fails at both ends of the range. With \<open>USE_ASSERT\<close> the amount equal
  to the width, which lies outside \<open>[0, width)\<close>, is not rejected by the assertion: on
  32-bit and 64-bit words it reaches a shift by the full width, and on a byte it
  returns the word unchanged, the rotation by \<open>0\<close>. The amount \<open>0\<close>, which lies inside
  the range, does not yield a rotation on 32-bit and 64-bit words: it reaches a shift
  by the full width as well.
\<close>
theorem ROTL_ROTR_counterexample:
  "ROTL True (1 :: 32 word) 32 = Inl Undefined_shift \<and>
   ROTR True (1 :: 32 word) 32 = Inl Undefined_shift \<and>
   ROTL True (1 :: 64 word) 64 = Inl Undefined_shift \<and>
   ROTR True (1 :: 64 word) 64 = Inl Undefined_shift \<and>
   ROTL True (0x81 :: 8 word) 8 = Inr 0x81 \<and>
   ROTR True (0x81 :: 8 word) 8 = Inr 0x81 \<and>
   ROTL True (1 :: 32 word) 0 = Inl Undefined_shift \<and>
   ROTR True (1 :: 32 word) 0 = Inl Undefined_shift \<and>
   ROTL True (1 :: 64 word) 0 = Inl Undefined_shift \<and>
   ROTR True (1 :: 64 word) 0 = Inl Undefined_shift"
  by (simp add: ROTL_def ROTR_def SHL_def SHR_def OR_def bind_result_def)


text \<open>
  Claim C6. For every three words and every round index below 80, the SHA-1 round
  selector \<open>f\<close> returns \<open>Ch\<close> in rounds 0 to 19, \<open>Parity\<close> in rounds 20 to 39, \<open>Maj\<close>
  in rounds 40 to 59 and \<open>Parity\<close> in rounds 60 to 79.
\<close>
theorem f_selects:
  assumes "r < 80"
  shows "(r < 20 \<longrightarrow> f x y z r = Ch x y z) \<and>
         (20 \<le> r \<and> r < 40 \<longrightarrow> f x y z r = Parity x y z) \<and>
         (40 \<le> r \<and> r < 60 \<longrightarrow> f x y z r = Maj x y z) \<and>
         (60 \<le> r \<and> r < 80 \<longrightarrow> f x y z r = Parity x y z)"
  by (simp add: f_def)

theorem f_selects_witness:
  "(19::nat) < 80 \<and> (20::nat) < 80 \<and> (59::nat) < 80 \<and> (79::nat) < 80 \<and>
   f (0xF0 :: 32 word) 0xCC 0xAA 19 = 0xCA \<and>
   f (0xF0 :: 32 word) 0xCC 0xAA 20 = 0x96 \<and>
   f (0xF0 :: 32 word) 0xCC 0xAA 59 = 0xE8 \<and>
   f (0xF0 :: 32 word) 0xCC 0xAA 79 = 0x96"
  using f_selects [of 19 "0xF0 :: 32 word" "0xCC" "0xAA"]
        f_selects [of 20 "0xF0 :: 32 word" "0xCC" "0xAA"]
        f_selects [of 59 "0xF0 :: 32 word" "0xCC" "0xAA"]
        f_selects [of 79 "0xF0 :: 32 word" "0xCC" "0xAA"]
  by (simp add: Ch_def Parity_def Maj_def AND_def XOR_def CMPLMNT_def)

lemma SIGMA_fn_rotates:
  fixes x :: "'a::len word"
  assumes "0 < unat a" "unat a < LENGTH('a)" "0 < unat b" "unat b < LENGTH('a)"
    "0 < unat c" "unat c < LENGTH('a)" "LENGTH('a) \<le> 64"
  shows "SIGMA_fn ua x a b c =
    Inr (xor (xor (word_rotr (unat a) x) (word_rotr (unat b) x)) (word_rotr (unat c) x))"
  using assms by (simp add: SIGMA_fn_def ROTR_rotates bind_result_def XOR_def)

lemma sigma_rotates:
  fixes x :: "'a::len word"
  assumes "0 < unat a" "unat a < LENGTH('a)" "0 < unat b" "unat b < LENGTH('a)"
    "unat c < LENGTH('a)" "LENGTH('a) \<le> 64"
  shows "sigma ua x a b c =
    Inr (xor (xor (word_rotr (unat a) x) (word_rotr (unat b) x)) (drop_bit (unat c) x))"
  using assms by (simp add: sigma_def ROTR_rotates SHR_def bind_result_def XOR_def)

text \<open>
  Claim C7. On 32-bit words \<open>SIGMA_256_0\<close>, \<open>SIGMA_256_1\<close>, \<open>sigma_256_0\<close> and
  \<open>sigma_256_1\<close> are the three-way exclusive or of right rotations by (2, 13, 22) and
  (6, 11, 25), and by (7, 18, 3) and (17, 19, 10) with a right shift as the last term;
  on 64-bit words the four functions of the 512 family use (28, 34, 39), (14, 18, 41),
  (1, 8, 7) and (19, 61, 6) in the same way. They return a value for every word, with
  and without \<open>USE_ASSERT\<close>.
\<close>
theorem SIGMA_amounts:
  fixes x :: "32 word" and y :: "64 word"
  shows "SIGMA_256_0 ua x = Inr (xor (xor (word_rotr 2 x) (word_rotr 13 x)) (word_rotr 22 x)) \<and>
         SIGMA_256_1 ua x = Inr (xor (xor (word_rotr 6 x) (word_rotr 11 x)) (word_rotr 25 x)) \<and>
         sigma_256_0 ua x = Inr (xor (xor (word_rotr 7 x) (word_rotr 18 x)) (drop_bit 3 x)) \<and>
         sigma_256_1 ua x = Inr (xor (xor (word_rotr 17 x) (word_rotr 19 x)) (drop_bit 10 x)) \<and>
         SIGMA_512_0 ua y = Inr (xor (xor (word_rotr 28 y) (word_rotr 34 y)) (word_rotr 39 y)) \<and>
         SIGMA_512_1 ua y = Inr (xor (xor (word_rotr 14 y) (word_rotr 18 y)) (word_rotr 41 y)) \<and>
         sigma_512_0 ua y = Inr (xor (xor (word_rotr 1 y) (word_rotr 8 y)) (drop_bit 7 y)) \<and>
         sigma_512_1 ua y = Inr (xor (xor (word_rotr 19 y) (word_rotr 61 y)) (drop_bit 6 y))"
  by (simp add: SIGMA_256_0_def SIGMA_256_1_def sigma_256_0_def sigma_256_1_def
      SIGMA_512_0_def SIGMA_512_1_def sigma_512_0_def sigma_512_1_def
      SIGMA_fn_rotates sigma_rotates)

theorem SIGMA_amounts_witness:
  "SIGMA_256_0 True (0x6a09e667 :: 32 word) = Inr 0xce20b47e \<and>
   sigma_256_1 True (0x00000018 :: 32 word) = Inr 0x000f0000 \<and>
   SIGMA_512_1 True (0x510e527fade682d1 :: 64 word) = Inr 0x9427e33bb5c9dbca \<and>
   sigma_512_0 True (0x0000000000000018 :: 64 word) = Inr 0x180000000000000c"
proof -
  have "xor (xor (word_rotr 2 (0x6a09e667 :: 32 word)) (word_rotr 13 0x6a09e667))
          (word_rotr 22 0x6a09e667) = 0xce20b47e"
    and "xor (xor (word_rotr 17 (0x00000018 :: 32 word)) (word_rotr 19 0x00000018))
          (drop_bit 10 0x00000018) = 0x000f0000"
    and "xor (xor (word_rotr 14 (0x510e527fade682d1 :: 64 word)) (word_rotr 18 0x510e527fade682d1))
          (word_rotr 41 0x510e527fade682d1) = 0x9427e33bb5c9dbca"
    and "xor (xor (word_rotr 1 (0x0000000000000018 :: 64 word)) (word_rotr 8 0x0000000000000018))
          (drop_bit 7 0x0000000000000018) = 0x180000000000000c"
    by code_simp+
  with SIGMA_amounts [of True "0x6a09e667" "0x510e527fade682d1"]
    SIGMA_amounts [of True "0x00000018" "0x0000000000000018"]
  show ?thesis by simp
qed

text \<open>
  Claim C8. Over the integer backend, \<open>Maj x x z = x\<close> for all words \<open>x\<close> and \<open>z\<close>, and
  \<open>Ch x y y = y\<close> for all words \<open>x\<close> and \<open>y\<close>.
\<close>
theorem Maj_Ch_identities:
  fixes x y z :: "'a::len word"
  shows "Maj x x z = x \<and> Ch x y y = y"
proof
  show "Maj x x z = x"
    unfolding Maj_def AND_def XOR_def by (rule bit_word_eqI) (auto simp add: bit_simps)
  show "Ch x y y = y"
    unfolding Ch_def AND_def XOR_def CMPLMNT_def by (rule bit_word_eqI) (auto simp add: bit_simps)
qed

theorem Maj_Ch_identities_witness:
  "Maj (0xF0F0F0F0 :: 32 word) 0xF0F0F0F0 0xAAAAAAAA = 0xF0F0F0F0 \<and>
   Ch (0xF0F0F0F0 :: 32 word) 0xCCCCCCCC 0xCCCCCCCC = 0xCCCCCCCC"
  by (rule Maj_Ch_identities)

lemma blockSizeBits_cases:
  "unat (blockSizeBits BLK) = 512 \<and> stop_residue BLK = 448 \<or>
   unat (blockSizeBits BLK) = 1024 \<and> stop_residue BLK = 896"
  by (cases BLK) (simp_all add: blockSizeBits_def wordSizeBits_def stop_residue_def)

lemma loop_test_unat:
  "(blockSizeBits BLK - 2 * wordSizeBits BLK \<noteq> l mod blockSizeBits BLK) \<longleftrightarrow>
   stop_residue BLK \<noteq> unat l mod unat (blockSizeBits BLK)"
  by (simp add: stop_residue_def word_unat_eq_iff unat_mod)

lemma blockSizeBits_dvd: "unat (blockSizeBits BLK) dvd (2::nat) ^ 64"
  by (cases BLK) (simp_all add: blockSizeBits_def)

lemma unat_plus_mod:
  fixes l :: "64 word"
  shows "unat (l + word_of_nat k) mod unat (blockSizeBits BLK) =
         (unat l + k) mod unat (blockSizeBits BLK)"
proof -
  have "unat (l + word_of_nat k) = (unat l + k) mod 2 ^ 64"
    by (simp add: unat_word_ariths unsigned_of_nat take_bit_eq_mod mod_simps)
  then show ?thesis
    using blockSizeBits_dvd [of BLK] by (simp add: mod_mod_cancel)
qed

lemma unat_plus8_mod:
  fixes l :: "64 word"
  shows "unat (l + 8) mod unat (blockSizeBits BLK) = (unat l + 8) mod unat (blockSizeBits BLK)"
  using unat_plus_mod [of l 8 BLK] by simp

lemma dvd8_plus8:
  fixes l :: "64 word"
  shows "8 dvd unat (l + 8) \<longleftrightarrow> 8 dvd unat l"
proof -
  have "(8::nat) dvd 2 ^ 64" by simp
  then have "unat (l + 8) mod 8 = (unat l + 8) mod 8"
    by (simp add: unat_word_ariths mod_mod_cancel)
  then show ?thesis by (simp add: dvd_eq_mod_eq_0)
qed

lemma padMessage_zeros_returns:
  assumes "(unat (snd s) + 8 * j) mod unat (blockSizeBits BLK) = stop_residue BLK"
  shows "\<exists>n\<le>j. padMessage_zeros BLK s =
             Some (fst s @ replicate n 0, snd s + 8 * word_of_nat n) \<and>
           (unat (snd s) + 8 * n) mod unat (blockSizeBits BLK) = stop_residue BLK"
  using assms
proof (induction j arbitrary: s)
  case 0
  then have "padMessage_zeros BLK s = Some s"
    by (subst padMessage_zeros.simps) (simp add: loop_test_unat)
  with 0 show ?case by simp
next
  case (Suc j)
  show ?case
  proof (cases "unat (snd s) mod unat (blockSizeBits BLK) = stop_residue BLK")
    case True
    then have "padMessage_zeros BLK s = Some s"
      by (subst padMessage_zeros.simps) (simp add: loop_test_unat)
    with True have "padMessage_zeros BLK s =
             Some (fst s @ replicate 0 0, snd s + 8 * word_of_nat 0) \<and>
           (unat (snd s) + 8 * 0) mod unat (blockSizeBits BLK) = stop_residue BLK"
      by simp
    then show ?thesis by blast
  next
    case False
    let ?s' = "append_byte s 0"
    have "(unat (snd ?s') + 8 * j) mod unat (blockSizeBits BLK) =
          (unat (snd s + 8) mod unat (blockSizeBits BLK) + 8 * j) mod unat (blockSizeBits BLK)"
      by (simp add: append_byte_def mod_add_left_eq)
    also have "\<dots> = (unat (snd s) + 8 * Suc j) mod unat (blockSizeBits BLK)"
      by (simp add: unat_plus8_mod mod_add_left_eq add.assoc)
    finally have "(unat (snd ?s') + 8 * j) mod unat (blockSizeBits BLK) = stop_residue BLK"
      using Suc.prems by simp
    from Suc.IH [OF this] obtain n where n: "n \<le> j"
      "padMessage_zeros BLK ?s' = Some (fst ?s' @ replicate n 0, snd ?s' + 8 * word_of_nat n)"
      "(unat (snd ?s') + 8 * n) mod unat (blockSizeBits BLK) = stop_residue BLK"
      by blast
    have r: "padMessage_zeros BLK s = padMessage_zeros BLK ?s'"
      using False by (subst padMessage_zeros.simps) (simp add: loop_test_unat)
    have e: "(fst ?s' @ replicate n 0, snd ?s' + 8 * word_of_nat n) =
          (fst s @ replicate (Suc n) 0, snd s + 8 * word_of_nat (Suc n))"
      by (simp add: append_byte_def replicate_append_same [symmetric] distrib_left)
    have "(unat (snd s) + 8 * Suc n) mod unat (blockSizeBits BLK) =
          (unat (snd s + 8) mod unat (blockSizeBits BLK) + 8 * n) mod unat (blockSizeBits BLK)"
      by (simp add: unat_plus8_mod mod_add_left_eq add.assoc)
    also have "\<dots> = (unat (snd ?s') + 8 * n) mod unat (blockSizeBits BLK)"
      by (simp add: append_byte_def mod_add_left_eq)
    finally have "(unat (snd s) + 8 * Suc n) mod unat (blockSizeBits BLK) = stop_residue BLK"
      using n(3) by simp
    with n(1) r n(2) e have "Suc n \<le> Suc j \<and> padMessage_zeros BLK s =
             Some (fst s @ replicate (Suc n) 0, snd s + 8 * word_of_nat (Suc n)) \<and>
           (unat (snd s) + 8 * Suc n) mod unat (blockSizeBits BLK) = stop_residue BLK"
      by simp
    then show ?thesis by blast
  qed
qed

lemma stop_residue_dvd8:
  "x mod unat (blockSizeBits BLK) = stop_residue BLK \<Longrightarrow> 8 dvd x"
proof -
  assume a: "x mod unat (blockSizeBits BLK) = stop_residue BLK"
  have "8 dvd unat (blockSizeBits BLK)" "8 dvd stop_residue BLK"
    using blockSizeBits_cases [of BLK] by auto
  then have "8 dvd unat (blockSizeBits BLK) * (x div unat (blockSizeBits BLK)) + x mod unat (blockSizeBits BLK)"
    unfolding a by (simp add: dvd_add)
  then show ?thesis by simp
qed

lemma padMessage_zeros_Some_dvd:
  assumes "padMessage_zeros BLK s = Some r"
  shows "8 dvd unat (snd s)"
proof (rule padMessage_zeros.raw_induct
    [where P = "\<lambda>BLK s r. 8 dvd unat (snd s)", OF _ assms])
  fix pz BLK s r
  assume 1: "\<And>BLK s r. pz BLK s = Some r \<Longrightarrow> 8 dvd unat (snd s)"
    "(if blockSizeBits BLK - 2 * wordSizeBits BLK \<noteq> snd s mod blockSizeBits BLK
      then pz BLK (append_byte s 0) else Some s) = Some r"
  show "8 dvd unat (snd s)"
  proof (cases "unat (snd s) mod unat (blockSizeBits BLK) = stop_residue BLK")
    case True
    then show ?thesis by (rule stop_residue_dvd8)
  next
    case False
    then have "pz BLK (append_byte s 0) = Some r"
      using 1(2) by (simp add: loop_test_unat)
    then have "8 dvd unat (snd (append_byte s 0))" by (rule 1(1))
    then show ?thesis by (simp add: append_byte_def dvd8_plus8)
  qed
qed

lemma stop_residue_reachable:
  assumes "8 dvd x"
  shows "\<exists>j. (x + 8 * j) mod unat (blockSizeBits BLK) = stop_residue BLK"
proof -
  let ?bs = "unat (blockSizeBits BLK)"
  have bs: "8 dvd ?bs" "8 dvd stop_residue BLK" "stop_residue BLK < ?bs"
    using blockSizeBits_cases [of BLK] by auto
  have "8 dvd x mod ?bs" using assms bs(1) by (simp add: dvd_mod)
  then have "8 dvd ?bs + stop_residue BLK - x mod ?bs"
    using bs by (simp add: dvd_diff_nat)
  then obtain j where j: "?bs + stop_residue BLK - x mod ?bs = 8 * j" by (auto elim: dvdE)
  have "x mod ?bs < ?bs" "x mod ?bs \<le> x" using bs(3) by simp_all
  then have "x + 8 * j = (x - x mod ?bs) + ?bs + stop_residue BLK"
    unfolding j [symmetric] by linarith
  then have "x + 8 * j = ?bs * Suc (x div ?bs) + stop_residue BLK"
    by (simp only: minus_mod_eq_mult_div mult_Suc_right)
  then have "(x + 8 * j) mod ?bs = stop_residue BLK mod ?bs"
    by (simp only: mod_mult_self4)
  then have "(x + 8 * j) mod ?bs = stop_residue BLK"
    using bs(3) by simp
  then show ?thesis by blast
qed


lemma fold_append_byte:
  "fold (\<lambda>i t. append_byte t (g i)) is s =
     (fst s @ map g is, snd s + 8 * word_of_nat (length is))"
  by (induction "is" arbitrary: s) (simp_all add: append_byte_def distrib_left add.assoc)

lemma foldl_be_shift:
  "foldl (\<lambda>a b. a * 256 + unat b) a bs = a * 256 ^ length bs + be_nat bs"
  for bs :: "8 word list"
proof (induction bs arbitrary: a)
  case Nil
  show ?case by (simp add: be_nat_def)
next
  case (Cons x xs)
  have "foldl (\<lambda>a b. a * 256 + unat b) a (x # xs) =
        (a * 256 + unat x) * 256 ^ length xs + be_nat xs"
    by (simp only: foldl_Cons Cons [of "a * 256 + unat x"])
  moreover have "be_nat (x # xs) = unat x * 256 ^ length xs + be_nat xs"
    using Cons [of "unat x"] by (simp add: be_nat_def)
  ultimately show ?case by (simp add: distrib_right mult.assoc)
qed

lemma be_nat_Cons: "be_nat (b # bs) = unat b * 256 ^ length bs + be_nat bs"
  using foldl_be_shift [of "unat b" bs] by (simp add: be_nat_def)

lemma be_nat_Nil: "be_nat [] = 0"
  by (simp add: be_nat_def)

lemma be_nat_zeros: "be_nat (replicate n 0 @ bs) = be_nat bs"
  by (induction n) (simp_all add: be_nat_Cons)

lemma unat_length_byte: "unat (length_byte L i) = unat L div 2 ^ (i * 8) mod 256"
proof -
  have "(0xff :: 64 word) = mask 8" by (simp add: mask_eq_exp_minus_1)
  then have "and (drop_bit (i * 8) L) 0xff = take_bit 8 (drop_bit (i * 8) L)"
    by (simp only: take_bit_eq_mask)
  then have "unat (length_byte L i) = take_bit 8 (unat (take_bit 8 (drop_bit (i * 8) L)))"
    by (simp only: length_byte_def unsigned_ucast_eq) simp
  also have "\<dots> = take_bit 8 (drop_bit (i * 8) (unat L))"
    using unsigned_less [of L, where 'a = nat]
    by (simp add: unsigned_take_bit_eq unsigned_drop_bit_eq take_bit_nat_eq_self)
  also have "\<dots> = unat L div 2 ^ (i * 8) mod 256"
    by (simp add: take_bit_eq_mod drop_bit_eq_div)
  finally show ?thesis .
qed

lemma be_nat_length_bytes:
  "be_nat (map (length_byte L) (rev [0 ..< n])) = unat L mod 2 ^ (n * 8)"
proof (induction n)
  case 0
  show ?case by (simp add: be_nat_Nil)
next
  case (Suc n)
  have "unat L mod (2 ^ (n * 8) * 256) =
        2 ^ (n * 8) * (unat L div 2 ^ (n * 8) mod 256) + unat L mod 2 ^ (n * 8)"
    by (rule mod_mult2_eq)
  moreover have "(2::nat) ^ (Suc n * 8) = 2 ^ (n * 8) * 256"
    by (simp add: power_add)
  moreover have "(256::nat) ^ n = 2 ^ (n * 8)"
    using power_mult [of "2::nat" 8 n] by (simp add: mult.commute)
  moreover have "be_nat (map (length_byte L) (rev [0 ..< Suc n])) =
    unat (length_byte L n) * 256 ^ n + be_nat (map (length_byte L) (rev [0 ..< n]))"
    by (simp add: be_nat_Cons)
  ultimately show ?case
    by (simp only: Suc unat_length_byte mult.commute)
qed

lemma be_nat_length_field: "be_nat (map (length_byte L) (rev [0 ..< 8])) = unat L"
proof -
  have "unat L < 2 ^ 64" using unsigned_less [of L, where 'a = nat] by simp
  then show ?thesis by (simp only: be_nat_length_bytes) simp
qed

lemma padMessage_closed_form:
  assumes "8 dvd unat L"
  shows "\<exists>n. padMessage BLK (os, L) =
           Some (os @ pad_suffix BLK L n, L + 8 * word_of_nat (length (pad_suffix BLK L n))) \<and>
           (unat L + 8 * Suc n) mod unat (blockSizeBits BLK) = stop_residue BLK"
proof -
  let ?s = "append_byte (os, L) 0x80"
  have "8 dvd unat (snd ?s)"
    using assms by (simp add: append_byte_def dvd8_plus8)
  from stop_residue_reachable [OF this, of BLK] obtain j
    where "(unat (snd ?s) + 8 * j) mod unat (blockSizeBits BLK) = stop_residue BLK" ..
  from padMessage_zeros_returns [OF this] obtain n
    where z: "padMessage_zeros BLK ?s = Some (fst ?s @ replicate n 0, snd ?s + 8 * word_of_nat n)"
      and r: "(unat (snd ?s) + 8 * n) mod unat (blockSizeBits BLK) = stop_residue BLK"
    by blast
  have lb: "(\<lambda>i. ucast (and (drop_bit (i * 8) L) 0xff) :: 8 word) = length_byte L"
    by (simp add: length_byte_def fun_eq_iff)
  have "padMessage BLK (os, L) =
           Some (os @ pad_suffix BLK L n, L + 8 * word_of_nat (length (pad_suffix BLK L n)))"
    unfolding padMessage_def Let_def z snd_conv lb fold_append_byte option.case
    by (simp add: pad_suffix_def append_byte_def map_replicate_const [of _ "[0 ..< 8]", simplified])
  moreover have "(unat L + 8 * Suc n) mod unat (blockSizeBits BLK) =
      (unat (L + 8) mod unat (blockSizeBits BLK) + 8 * n) mod unat (blockSizeBits BLK)"
    by (simp add: unat_plus8_mod mod_add_left_eq add.assoc)
  then have "(unat L + 8 * Suc n) mod unat (blockSizeBits BLK) = stop_residue BLK"
    using r by (simp add: append_byte_def mod_add_left_eq)
  ultimately show ?thesis by blast
qed

lemma padMessage_diverges:
  assumes "\<not> 8 dvd unat L"
  shows "padMessage_zeros BLK (append_byte (os, L) 0x80) = None"
    and "padMessage BLK (os, L) = None"
proof -
  show z: "padMessage_zeros BLK (append_byte (os, L) 0x80) = None"
  proof (rule ccontr)
    assume "padMessage_zeros BLK (append_byte (os, L) 0x80) \<noteq> None"
    then obtain r where "padMessage_zeros BLK (append_byte (os, L) 0x80) = Some r" by auto
    then have "8 dvd unat (snd (append_byte (os, L) 0x80))"
      by (rule padMessage_zeros_Some_dvd)
    then show False using assms by (simp add: append_byte_def dvd8_plus8)
  qed
  show "padMessage BLK (os, L) = None"
    unfolding padMessage_def Let_def z by simp
qed

lemma pad_suffix_aligned:
  assumes "(unat L + 8 * Suc n) mod unat (blockSizeBits BLK) = stop_residue BLK"
  shows "(unat L + 8 * length (pad_suffix BLK L n)) mod unat (blockSizeBits BLK) = 0"
proof (cases BLK)
  case BLOCK_512
  then have a: "(unat L + 8 * Suc n) mod 512 = 448"
    using assms by (simp add: blockSizeBits_def wordSizeBits_def stop_residue_def)
  have "unat L + 8 * length (pad_suffix BLK L n) = (unat L + 8 * Suc n) + 64"
    using BLOCK_512 by (simp add: pad_suffix_def)
  then have "(unat L + 8 * length (pad_suffix BLK L n)) mod 512 = (448 + 64) mod 512"
    using mod_add_left_eq [of "unat L + 8 * Suc n" 512 64] by (simp only: a)
  then show ?thesis using BLOCK_512 by (simp add: blockSizeBits_def)
next
  case BLOCK_1024
  then have a: "(unat L + 8 * Suc n) mod 1024 = 896"
    using assms by (simp add: blockSizeBits_def wordSizeBits_def stop_residue_def)
  have "unat L + 8 * length (pad_suffix BLK L n) = (unat L + 8 * Suc n) + 128"
    using BLOCK_1024 by (simp add: pad_suffix_def)
  then have "(unat L + 8 * length (pad_suffix BLK L n)) mod 1024 = (896 + 128) mod 1024"
    using mod_add_left_eq [of "unat L + 8 * Suc n" 1024 128] by (simp only: a)
  then show ?thesis using BLOCK_1024 by (simp add: blockSizeBits_def)
qed
lemma trailing_append: "length ys = n \<Longrightarrow> trailing n (xs @ ys) = ys"
  by (simp add: trailing_def)
lemma pad_suffix_trailing8:
  "be_nat (trailing 8 (pad_suffix BLK L n)) = unat L"
proof -
  have "pad_suffix BLK L n = (0x80 # replicate n 0 @
     (if BLK = BLOCK_1024 then replicate 8 0 else [])) @ map (length_byte L) (rev [0 ..< 8])"
    by (simp add: pad_suffix_def)
  then have "trailing 8 (pad_suffix BLK L n) = map (length_byte L) (rev [0 ..< 8])"
    by (simp only:) (rule trailing_append, simp)
  then show ?thesis by (simp only: be_nat_length_field)
qed
lemma pad_suffix_trailing_field:
  "be_nat (trailing (unat (2 * wordSizeBits BLK) div 8) (pad_suffix BLK L n)) = unat L"
proof (cases BLK)
  case BLOCK_512
  then have "unat (2 * wordSizeBits BLK) div 8 = 8" by (simp add: wordSizeBits_def)
  then show ?thesis by (simp only: pad_suffix_trailing8)
next
  case BLOCK_1024
  then have n: "unat (2 * wordSizeBits BLK) div 8 = 16" by (simp add: wordSizeBits_def)
  have "pad_suffix BLK L n = (0x80 # replicate n 0) @
     (replicate 8 0 @ map (length_byte L) (rev [0 ..< 8]))"
    using BLOCK_1024 by (simp add: pad_suffix_def)
  then have "trailing 16 (pad_suffix BLK L n) = replicate 8 0 @ map (length_byte L) (rev [0 ..< 8])"
    by (simp only:) (rule trailing_append, simp)
  then show ?thesis unfolding n by (simp only: be_nat_zeros be_nat_length_field)
qed

text \<open>
  Claim C2, as the code has it. For every message bit length \<open>L\<close> that is a multiple of
  8, \<open>padMessage\<close> returns; the bytes it appended to the stream make \<open>L\<close> plus their
  length in bits a multiple of the block size, and the trailing 64 bits of the suffix,
  as well as its trailing \<open>2 * wordSize\<close> bits, read as a big-endian number, are \<open>L\<close>.
\<close>
theorem padMessage_suffix:
  assumes "8 dvd unat L"
  shows "\<exists>s'. padMessage BLK (os, L) = Some s' \<and>
           fst s' = os @ suffix_of (os, L) s' \<and>
           (unat L + 8 * length (suffix_of (os, L) s')) mod unat (blockSizeBits BLK) = 0 \<and>
           be_nat (trailing 8 (suffix_of (os, L) s')) = unat L \<and>
           be_nat (trailing (unat (2 * wordSizeBits BLK) div 8) (suffix_of (os, L) s')) = unat L"
proof -
  from padMessage_closed_form [OF assms, of BLK os] obtain n
    where p: "padMessage BLK (os, L) =
           Some (os @ pad_suffix BLK L n, L + 8 * word_of_nat (length (pad_suffix BLK L n)))"
      and r: "(unat L + 8 * Suc n) mod unat (blockSizeBits BLK) = stop_residue BLK"
    by blast
  let ?s' = "(os @ pad_suffix BLK L n, L + 8 * word_of_nat (length (pad_suffix BLK L n)))"
  have sfx: "suffix_of (os, L) ?s' = pad_suffix BLK L n" by (simp add: suffix_of_def)
  show ?thesis
  proof (intro exI conjI)
    show "padMessage BLK (os, L) = Some ?s'" by (rule p)
    show "fst ?s' = os @ suffix_of (os, L) ?s'"
      by (simp only: sfx fst_conv)
    show "(unat L + 8 * length (suffix_of (os, L) ?s')) mod unat (blockSizeBits BLK) = 0"
      by (simp only: sfx pad_suffix_aligned [OF r])
    show "be_nat (trailing 8 (suffix_of (os, L) ?s')) = unat L"
      by (simp only: sfx pad_suffix_trailing8)
    show "be_nat (trailing (unat (2 * wordSizeBits BLK) div 8) (suffix_of (os, L) ?s')) = unat L"
      by (simp only: sfx pad_suffix_trailing_field)
  qed
qed

text \<open>
  Claim C2 as stated, for every bit length, fails at \<open>L = 1\<close>: the zero-padding loop
  never exits and \<open>padMessage\<close> returns no suffix.
\<close>
theorem padMessage_unaligned_counterexample:
  "padMessage BLOCK_512 ([], 1) = None"
  by (rule padMessage_diverges) simp

text \<open>
  Claim C3. \<open>padMessage\<close> terminates exactly for the bit lengths that are multiples of
  8: for such a length the zero-padding loop exits, with the bit count at the stop
  residue \<open>blockSize - 2 * wordSize\<close> modulo the block size, and \<open>padMessage\<close> returns;
  for any other length the loop, and with it \<open>padMessage\<close>, never returns.
\<close>
theorem padMessage_terminates_iff:
  "(8 dvd unat L \<longrightarrow>
      (\<exists>s1. padMessage_zeros BLK (append_byte (os, L) 0x80) = Some s1 \<and>
             unat (snd s1) mod unat (blockSizeBits BLK) = stop_residue BLK) \<and>
      (\<exists>s'. padMessage BLK (os, L) = Some s')) \<and>
   (\<not> 8 dvd unat L \<longrightarrow>
      padMessage_zeros BLK (append_byte (os, L) 0x80) = None \<and>
      padMessage BLK (os, L) = None)"
proof (intro conjI impI)
  assume a: "8 dvd unat L"
  let ?s = "append_byte (os, L) 0x80"
  have "8 dvd unat (snd ?s)" using a by (simp add: append_byte_def dvd8_plus8)
  from stop_residue_reachable [OF this, of BLK] obtain j
    where "(unat (snd ?s) + 8 * j) mod unat (blockSizeBits BLK) = stop_residue BLK" ..
  from padMessage_zeros_returns [OF this] obtain n
    where z: "padMessage_zeros BLK ?s = Some (fst ?s @ replicate n 0, snd ?s + 8 * word_of_nat n)"
      and r: "(unat (snd ?s) + 8 * n) mod unat (blockSizeBits BLK) = stop_residue BLK"
    by blast
  have "unat (snd ?s + 8 * word_of_nat n) mod unat (blockSizeBits BLK) = stop_residue BLK"
    using unat_plus_mod [of "snd ?s" "8 * n" BLK] r by simp
  with z show "\<exists>s1. padMessage_zeros BLK ?s = Some s1 \<and>
             unat (snd s1) mod unat (blockSizeBits BLK) = stop_residue BLK"
    by simp
  show "\<exists>s'. padMessage BLK (os, L) = Some s'"
    using padMessage_closed_form [OF a, of BLK os] by blast
next
  assume "\<not> 8 dvd unat L"
  then show "padMessage_zeros BLK (append_byte (os, L) 0x80) = None"
    by (rule padMessage_diverges)
next
  assume "\<not> 8 dvd unat L"
  then show "padMessage BLK (os, L) = None"
    by (rule padMessage_diverges)
qed

theorem padMessage_suffix_witness:
  "8 dvd unat (24 :: 64 word) \<and>
   (\<exists>s'. padMessage BLOCK_512 ([0x61, 0x62, 0x63], 24) = Some s' \<and>
           fst s' = [0x61, 0x62, 0x63] @ suffix_of ([0x61, 0x62, 0x63], 24) s' \<and>
           (unat (24 :: 64 word) + 8 * length (suffix_of ([0x61, 0x62, 0x63], 24) s'))
             mod unat (blockSizeBits BLOCK_512) = 0 \<and>
           be_nat (trailing 8 (suffix_of ([0x61, 0x62, 0x63], 24) s')) = unat (24 :: 64 word) \<and>
           be_nat (trailing (unat (2 * wordSizeBits BLOCK_512) div 8)
             (suffix_of ([0x61, 0x62, 0x63], 24) s')) = unat (24 :: 64 word))"
proof
  show h: "8 dvd unat (24 :: 64 word)" by simp
  show "\<exists>s'. padMessage BLOCK_512 ([0x61, 0x62, 0x63], 24) = Some s' \<and>
           fst s' = [0x61, 0x62, 0x63] @ suffix_of ([0x61, 0x62, 0x63], 24) s' \<and>
           (unat (24 :: 64 word) + 8 * length (suffix_of ([0x61, 0x62, 0x63], 24) s'))
             mod unat (blockSizeBits BLOCK_512) = 0 \<and>
           be_nat (trailing 8 (suffix_of ([0x61, 0x62, 0x63], 24) s')) = unat (24 :: 64 word) \<and>
           be_nat (trailing (unat (2 * wordSizeBits BLOCK_512) div 8)
             (suffix_of ([0x61, 0x62, 0x63], 24) s')) = unat (24 :: 64 word)"
    by (rule padMessage_suffix [OF h])
qed

theorem padMessage_terminates_iff_witness:
  "8 dvd unat (24 :: 64 word) \<and> \<not> 8 dvd unat (20 :: 64 word) \<and>
   (\<exists>s'. padMessage BLOCK_1024 ([], 24) = Some s') \<and>
   padMessage BLOCK_1024 ([], 20) = None"
proof -
  have h: "8 dvd unat (24 :: 64 word)" and g: "\<not> 8 dvd unat (20 :: 64 word)" by simp_all
  from padMessage_terminates_iff [of 24 BLOCK_1024 "[]"] h
  have "\<exists>s'. padMessage BLOCK_1024 ([], 24) = Some s'" by blast
  moreover from padMessage_terminates_iff [of 20 BLOCK_1024 "[]"] g
  have "padMessage BLOCK_1024 ([], 20) = None" by blast
  ultimately show ?thesis using h g by blast
qed


lemma m_message_msgInput_vector: "m_message (msgInput_vector a s) = m_message s @ a"
  unfolding msgInput_vector_def
  by (induction a arbitrary: s) (simp_all add: msgInput_def)

lemma msgInput_vector_fields:
  "m_H (msgInput_vector a s) = m_H s"
  "m_Hleft (msgInput_vector a t) = m_Hleft t"
  "m_setDigest (msgInput_vector a t) = m_setDigest t"
  unfolding msgInput_vector_def
  by (induction a arbitrary: s t) (simp_all add: msgInput_def)

lemma fold_update_take:
  "n \<le> length H \<Longrightarrow> n \<le> length a \<Longrightarrow>
   fold (\<lambda>i H. H[i := g (a ! i)]) [0 ..< n] H = map g (take n a) @ drop n H"
proof (induction n)
  case 0
  show ?case by simp
next
  case (Suc n)
  then have "fold (\<lambda>i H. H[i := g (a ! i)]) [0 ..< Suc n] H =
             (map g (take n a) @ drop n H)[n := g (a ! n)]"
    by simp
  also have "\<dots> = map g (take n a) @ (drop n H)[0 := g (a ! n)]"
    using Suc.prems by (simp add: list_update_append)
  also have "(drop n H)[0 := g (a ! n)] = g (a ! n) # drop (Suc n) H"
    using Suc.prems by (cases "drop n H") (auto simp add: drop_Suc drop_tl)
  also have "map g (take n a) @ g (a ! n) # drop (Suc n) H =
             map g (take (Suc n) a) @ drop (Suc n) H"
    using Suc.prems by (simp add: take_Suc_conv_app_nth)
  finally show ?case .
qed

lemma readBlock_ok:
  "index + n \<le> length (m_message s) \<Longrightarrow>
   readBlock s index n = Inr (take n (drop index (m_message s)), index + n)"
proof (induction n arbitrary: index)
  case 0
  show ?case by simp
next
  case (Suc n)
  then have lt: "index < length (m_message s)" by simp
  have "take (Suc n) (drop index (m_message s)) =
        m_message s ! index # take n (drop (Suc index) (m_message s))"
    using lt by (simp add: Cons_nth_drop_Suc [symmetric])
  moreover have "readBlock s (Suc index) n =
        Inr (take n (drop (Suc index) (m_message s)), Suc index + n)"
    using Suc.prems by (intro Suc.IH) simp
  ultimately show ?case using lt by (simp add: msgWord_def)
qed

lemma hashLoop_blocks:
  "length (m_message s) = index + 16 * n \<Longrightarrow>
   hashLoop blk s index H = hashBlocks blk (blocksOf n (drop index (m_message s))) H"
proof (induction n arbitrary: index H)
  case 0
  then show ?case by (subst hashLoop.simps) simp
next
  case (Suc n)
  then have lt: "index < length (m_message s)" and le: "index + 16 \<le> length (m_message s)"
    and len: "length (m_message s) = (index + 16) + 16 * n"
    by simp_all
  have rb: "readBlock s index 16 = Inr (take 16 (drop index (m_message s)), index + 16)"
    by (rule readBlock_ok [OF le])
  show ?case
  proof (cases "blk (take 16 (drop index (m_message s))) H")
    case (Inl e)
    then show ?thesis using lt rb by (subst hashLoop.simps) simp
  next
    case (Inr H')
    then show ?thesis using lt rb Suc.IH [OF len, of H']
      by (subst hashLoop.simps) (simp add: add.commute)
  qed
qed

lemma hashBlocks_total:
  assumes "\<And>M H. \<exists>H'. blk M H = Inr H' \<and> length H' = length H"
  shows "\<exists>H'. hashBlocks blk Ms H = Inr H' \<and> length H' = length H"
proof (induction Ms arbitrary: H)
  case Nil
  show ?case by simp
next
  case (Cons M Ms)
  from assms [of M H] obtain H1 where "blk M H = Inr H1" "length H1 = length H" by blast
  with Cons [of H1] show ?case by simp
qed
lemma expandSchedule_total:
  assumes "\<And>x. \<exists>y. sigma0 fam ua x = Inr y" "\<And>x. \<exists>y. sigma1 fam ua x = Inr y"
  shows "\<exists>W'. expandSchedule fam ua ts W = Inr W'"
proof (induction ts arbitrary: W)
  case Nil
  show ?case by simp
next
  case (Cons t ts)
  from assms(2) [of "W ! (t - 2)"] obtain x1 where x1: "sigma1 fam ua (W ! (t - 2)) = Inr x1" ..
  from assms(1) [of "W ! (t - 15)"] obtain x0 where x0: "sigma0 fam ua (W ! (t - 15)) = Inr x0" ..
  show ?case using Cons by (simp add: x1 x0)
qed

lemma workingRound_total:
  assumes "\<And>x. \<exists>y. Sigma0 fam ua x = Inr y" "\<And>x. \<exists>y. Sigma1 fam ua x = Inr y"
  shows "\<exists>v'. workingRound fam ua W t v = Inr v' \<and> length v' = 8"
proof -
  from assms(2) [of "v ! 4"] obtain S1 where S1: "Sigma1 fam ua (v ! 4) = Inr S1" ..
  from assms(1) [of "v ! 0"] obtain S0 where S0: "Sigma0 fam ua (v ! 0) = Inr S0" ..
  show ?thesis by (simp add: workingRound_def Let_def S1 S0)
qed

lemma workingRounds_total:
  assumes "\<And>x. \<exists>y. Sigma0 fam ua x = Inr y" "\<And>x. \<exists>y. Sigma1 fam ua x = Inr y"
  shows "\<exists>v'. workingRounds fam ua W ts v = Inr v'"
proof (induction ts arbitrary: v)
  case Nil
  show ?case by simp
next
  case (Cons t ts)
  from workingRound_total [OF assms, of W t v] obtain v1
    where "workingRound fam ua W t v = Inr v1" by blast
  with Cons [of v1] show ?case by simp
qed

lemma length_updateHash: "length (updateHash H v) = length H"
proof -
  have "length (fold (\<lambda>i H. H[i := ADDMOD (H ! i) (v ! i)]) is H) = length H" for "is"
    by (induction "is" arbitrary: H) simp_all
  then show ?thesis by (simp add: updateHash_def)
qed

lemma processBlock_total:
  assumes "\<And>x. \<exists>y. Sigma0 fam ua x = Inr y" "\<And>x. \<exists>y. Sigma1 fam ua x = Inr y"
    "\<And>x. \<exists>y. sigma0 fam ua x = Inr y" "\<And>x. \<exists>y. sigma1 fam ua x = Inr y"
  shows "\<exists>H'. processBlock fam ua M H = Inr H' \<and> length H' = length H"
proof -
  from expandSchedule_total [OF assms(3,4)] obtain W
    where W: "prepMsgSchedule fam ua M = Inr W"
    unfolding prepMsgSchedule_def by blast
  from workingRounds_total [OF assms(1,2)] obtain v
    where v: "workingLoop fam ua W (initWorkingVars H) = Inr v"
    unfolding workingLoop_def by blast
  show ?thesis by (simp add: processBlock_def W v length_updateHash)
qed

lemma SHA_256_processBlock_total:
  "\<exists>H'. processBlock SHA_256_family ua M H = Inr H' \<and> length H' = length H"
  by (rule processBlock_total)
    (simp_all add: SHA_256_family_def SIGMA_256_0_def SIGMA_256_1_def sigma_256_0_def
      sigma_256_1_def SIGMA_fn_rotates sigma_rotates)

lemma SHA_512_processBlock_total:
  "\<exists>H'. processBlock SHA_512_family ua M H = Inr H' \<and> length H' = length H"
  by (rule processBlock_total)
    (simp_all add: SHA_512_family_def SIGMA_512_0_def SIGMA_512_1_def sigma_512_0_def
      sigma_512_1_def SIGMA_fn_rotates sigma_rotates)

lemma inputOK_iff:
  "inputOK BLK s \<longleftrightarrow>
     m_message s \<noteq> [] \<and>
     (length (m_message s) * unat (wordSizeBits BLK)) mod unat (blockSizeBits BLK) = 0"
proof -
  have ws: "unat (wordSizeBits BLK) < 2 ^ 64" using unsigned_less [of "wordSizeBits BLK", where 'a = nat] by simp
  have "unat (word_of_nat (length (m_message s)) * wordSizeBits BLK :: 64 word) =
        (length (m_message s) * unat (wordSizeBits BLK)) mod 2 ^ 64"
    by (simp add: unat_word_ariths unsigned_of_nat take_bit_eq_mod mod_simps)
  then have "unat ((word_of_nat (length (m_message s)) * wordSizeBits BLK) mod blockSizeBits BLK) =
        (length (m_message s) * unat (wordSizeBits BLK)) mod unat (blockSizeBits BLK)"
    using blockSizeBits_dvd [of BLK] by (simp add: unat_mod mod_mod_cancel)
  then show ?thesis
    by (auto simp add: inputOK_def Let_def word_unat_eq_iff)
qed

lemma inputOK_blocks:
  "inputOK BLK s \<longleftrightarrow> m_message s \<noteq> [] \<and> length (m_message s) mod 16 = 0"
proof -
  have "(n * 32) mod 512 = 32 * (n mod 16)" "(n * 64) mod 1024 = 64 * (n mod 16)" for n :: nat
    using mult_mod_right [of 32 n 16] mult_mod_right [of 64 n 16] by (simp_all add: mult.commute)
  then show ?thesis
    by (cases BLK) (simp_all add: inputOK_iff blockSizeBits_def wordSizeBits_def)
qed

lemma computeHash_eq:
  assumes ok: "inputOK BLK s"
    and init: "initHashValue ptr s = s\<lparr>m_H := IV\<rparr>"
    and run: "hashBlocks (blockHooks ptr) (blocksOf (length (m_message s) div 16) (m_message s)) IV
                = Inr H'"
  shows "computeHash ua BLK ptr s = Inr (afterHash ptr (s\<lparr>m_H := H'\<rparr>))"
proof -
  let ?s1 = "s\<lparr>m_H := IV\<rparr>"
  from ok have "length (m_message s) mod 16 = 0" by (simp add: inputOK_blocks)
  then have "length (m_message ?s1) = 0 + 16 * (length (m_message s) div 16)"
    by (simp add: mod_0_imp_dvd)
  from hashLoop_blocks [OF this, of "blockHooks ptr" IV] run
  have "hashLoop (blockHooks ptr) ?s1 0 IV = Inr H'" by simp
  then show ?thesis using ok by (simp add: computeHash_def init Let_def)
qed

lemma initHashValue_sets:
  assumes "length (m_H s) = 8"
  shows "SHA_224_initHashValue s = s\<lparr>m_H := SHA_224_a\<rparr>"
    and "SHA_256_initHashValue s = s\<lparr>m_H := SHA_256_a\<rparr>"
  using assms
    fold_update_take [of 8 "m_H s" SHA_224_a constant_INT]
    fold_update_take [of 8 "m_H s" SHA_256_a constant_INT]
  by (simp_all add: SHA_224_initHashValue_def SHA_256_initHashValue_def
      SHA_224_a_def SHA_256_a_def constant_INT_def)

lemma initHashValue_sets_64:
  assumes "length (m_H s) = 8"
  shows "SHA_384_initHashValue s = s\<lparr>m_H := SHA_384_a\<rparr>"
    and "SHA_512_initHashValue s = s\<lparr>m_H := SHA_512_a\<rparr>"
  using assms
    fold_update_take [of 8 "m_H s" SHA_384_a constant_INT]
    fold_update_take [of 8 "m_H s" SHA_512_a constant_INT]
  by (simp_all add: SHA_384_initHashValue_def SHA_512_initHashValue_def
      SHA_384_a_def SHA_512_a_def constant_INT_def)



lemma digest_snapshot:
  assumes "m_setDigest s" "length (m_Hleft s) = n" "n \<le> length (m_H s)"
  shows "fold (\<lambda>i l. l[i := m_H s ! i]) [0 ..< n] (m_Hleft s) = take n (m_H s)"
  using assms fold_update_take [of n "m_Hleft s" "m_H s" "\<lambda>x. x"] by simp
lemma fresh_engine_512:
  "m_message (msgInput_vector abc_512 (SHA_trunc_new H0 L0)) = abc_512"
  "inputOK BLOCK_512 (msgInput_vector abc_512 (SHA_trunc_new H0 L0))"
  "m_H (msgInput_vector abc_512 (SHA_trunc_new H0 L0)) = H0"
  "m_Hleft (msgInput_vector abc_512 (SHA_trunc_new H0 L0)) = L0"
  "m_message (msgInput_vector abc_512 (SHA_2_new H0)) = abc_512"
  "inputOK BLOCK_512 (msgInput_vector abc_512 (SHA_2_new H0))"
  "m_H (msgInput_vector abc_512 (SHA_2_new H0)) = H0"
  by (simp_all add: m_message_msgInput_vector msgInput_vector_fields SHA_trunc_new_def SHA_2_new_def
      inputOK_blocks) (simp_all add: abc_512_def)

lemma fresh_engine_1024:
  "m_message (msgInput_vector abc_1024 (SHA_trunc_new H0 L0)) = abc_1024"
  "inputOK BLOCK_1024 (msgInput_vector abc_1024 (SHA_trunc_new H0 L0))"
  "m_H (msgInput_vector abc_1024 (SHA_trunc_new H0 L0)) = H0"
  "m_Hleft (msgInput_vector abc_1024 (SHA_trunc_new H0 L0)) = L0"
  "m_message (msgInput_vector abc_1024 (SHA_2_new H0)) = abc_1024"
  "inputOK BLOCK_1024 (msgInput_vector abc_1024 (SHA_2_new H0))"
  "m_H (msgInput_vector abc_1024 (SHA_2_new H0)) = H0"
  by (simp_all add: m_message_msgInput_vector msgInput_vector_fields SHA_trunc_new_def SHA_2_new_def
      inputOK_blocks) (simp_all add: abc_1024_def)

text \<open>
  Claim C5. \<open>inputOK\<close> holds exactly when the message buffer is not empty and its size
  in bits is a multiple of the block size. With \<open>USE_ASSERT\<close>, \<open>computeHash\<close> on a
  buffer that is empty or not block-aligned fails by assertion, and the object is then
  exactly in the state in which \<open>computeHash\<close> was called, whatever the hooks of the
  derived class do to the state: none of them has run. When the check passes it
  changes nothing.
\<close>
theorem computeHash_precondition:
  "(inputOK BLK s \<longleftrightarrow>
      m_message s \<noteq> [] \<and>
      (length (m_message s) * unat (wordSizeBits BLK)) mod unat (blockSizeBits BLK) = 0) \<and>
   (m_message s = [] \<or>
      (length (m_message s) * unat (wordSizeBits BLK)) mod unat (blockSizeBits BLK) \<noteq> 0 \<longrightarrow>
      computeHash True BLK ptr s = Inl (Assertion_failed, s)) \<and>
   (inputOK BLK s \<longrightarrow> computeHash True BLK ptr s = computeHash False BLK ptr s)"
proof (intro conjI impI)
  show "inputOK BLK s \<longleftrightarrow>
      m_message s \<noteq> [] \<and>
      (length (m_message s) * unat (wordSizeBits BLK)) mod unat (blockSizeBits BLK) = 0"
    by (rule inputOK_iff)
next
  assume "m_message s = [] \<or>
      (length (m_message s) * unat (wordSizeBits BLK)) mod unat (blockSizeBits BLK) \<noteq> 0"
  then have "\<not> inputOK BLK s" by (auto simp add: inputOK_iff)
  then show "computeHash True BLK ptr s = Inl (Assertion_failed, s)"
    by (simp add: computeHash_def)
next
  assume "inputOK BLK s"
  then show "computeHash True BLK ptr s = computeHash False BLK ptr s"
    by (simp add: computeHash_def)
qed

theorem computeHash_precondition_witness:
  "(m_message (SHA_2_new (replicate 8 (0 :: 32 word))) = [] \<and>
    SHA_256_initHashValue (SHA_2_new (replicate 8 0)) \<noteq> SHA_2_new (replicate 8 0) \<and>
    computeHash True BLOCK_512 (SHA_256_hooks True) (SHA_2_new (replicate 8 0))
      = Inl (Assertion_failed, SHA_2_new (replicate 8 0)) \<and>
    computeHash False BLOCK_512 (SHA_256_hooks True) (SHA_2_new (replicate 8 0))
      = Inr (\<lparr>m_message = [], m_H = SHA_256_a\<rparr>)) \<and>
   ((length (m_message (msgInput_vector [1, 2, 3] (SHA_2_new (replicate 8 (0 :: 32 word)))))
        * unat (wordSizeBits BLOCK_512)) mod unat (blockSizeBits BLOCK_512) \<noteq> 0 \<and>
    computeHash True BLOCK_512 (SHA_256_hooks True)
        (msgInput_vector [1, 2, 3] (SHA_2_new (replicate 8 0)))
      = Inl (Assertion_failed, msgInput_vector [1, 2, 3] (SHA_2_new (replicate 8 0)))) \<and>
   (inputOK BLOCK_512 (msgInput_vector abc_512 (SHA_2_new (replicate 8 0))) \<and>
    computeHash True BLOCK_512 (SHA_256_hooks True)
        (msgInput_vector abc_512 (SHA_2_new (replicate 8 0)))
      = computeHash False BLOCK_512 (SHA_256_hooks True)
        (msgInput_vector abc_512 (SHA_2_new (replicate 8 0))))"
proof (intro conjI)
  let ?e = "SHA_2_new (replicate 8 (0 :: 32 word))"
  let ?u = "msgInput_vector [1, 2, 3] ?e"
  let ?a = "msgInput_vector abc_512 ?e"
  show e: "m_message ?e = []" by (simp add: SHA_2_new_def)
  have "m_H (SHA_256_initHashValue ?e) = SHA_256_a"
    by (simp add: initHashValue_sets SHA_2_new_def)
  moreover have "hd (m_H ?e) \<noteq> hd SHA_256_a"
    by (simp add: SHA_2_new_def SHA_256_a_def)
  then have "m_H ?e \<noteq> SHA_256_a" by auto
  ultimately show "SHA_256_initHashValue ?e \<noteq> ?e" by auto
  show "computeHash True BLOCK_512 (SHA_256_hooks True) ?e = Inl (Assertion_failed, ?e)"
    using computeHash_precondition [of BLOCK_512 ?e "SHA_256_hooks True"] e by blast
  show "computeHash False BLOCK_512 (SHA_256_hooks True) ?e
      = Inr (\<lparr>m_message = [], m_H = SHA_256_a\<rparr>)"
    by (subst computeHash_def)
      (simp add: SHA_256_hooks_def initHashValue_sets hashLoop.simps SHA_2_new_def)
  show u: "(length (m_message ?u) * unat (wordSizeBits BLOCK_512))
             mod unat (blockSizeBits BLOCK_512) \<noteq> 0"
    by (simp add: m_message_msgInput_vector SHA_2_new_def wordSizeBits_def blockSizeBits_def)
  show "computeHash True BLOCK_512 (SHA_256_hooks True) ?u = Inl (Assertion_failed, ?u)"
    using computeHash_precondition [of BLOCK_512 ?u "SHA_256_hooks True"] u by blast
  show a: "inputOK BLOCK_512 ?a" by (rule fresh_engine_512)
  show "computeHash True BLOCK_512 (SHA_256_hooks True) ?a
      = computeHash False BLOCK_512 (SHA_256_hooks True) ?a"
    using computeHash_precondition [of BLOCK_512 ?a "SHA_256_hooks True"] a by blast
qed

text \<open>
  Claim C10. From any state of an engine, \<open>clearMessage\<close> empties the message buffer, a
  second call changes nothing, and the hash value, the truncated digest, the flag and
  the digest returned afterwards are those of the state before.
\<close>
theorem clearMessage_frame:
  fixes s :: "('w, 'z) SHA_trunc_scheme"
  shows "m_message (clearMessage s) = [] \<and>
         clearMessage (clearMessage s) = clearMessage s \<and>
         m_H (clearMessage s) = m_H s \<and>
         m_Hleft (clearMessage s) = m_Hleft s \<and>
         m_setDigest (clearMessage s) = m_setDigest s \<and>
         SHA_trunc.more (clearMessage s) = SHA_trunc.more s \<and>
         fst (SHA_224_digest (clearMessage a)) = fst (SHA_224_digest a) \<and>
         fst (SHA_384_digest (clearMessage b)) = fst (SHA_384_digest b)"
  by (simp add: clearMessage_def SHA_224_digest_def SHA_384_digest_def)

theorem clearMessage_frame_witness:
  "m_message (clearMessage (msgInput_vector abc_512 (SHA_trunc_new SHA_224_a (take 7 SHA_224_a))))
     = [] \<and>
   clearMessage (clearMessage (msgInput_vector abc_512 (SHA_trunc_new SHA_224_a (take 7 SHA_224_a))))
     = clearMessage (msgInput_vector abc_512 (SHA_trunc_new SHA_224_a (take 7 SHA_224_a))) \<and>
   m_H (clearMessage (msgInput_vector abc_512 (SHA_trunc_new SHA_224_a (take 7 SHA_224_a))))
     = m_H (msgInput_vector abc_512 (SHA_trunc_new SHA_224_a (take 7 SHA_224_a))) \<and>
   m_Hleft (clearMessage (msgInput_vector abc_512 (SHA_trunc_new SHA_224_a (take 7 SHA_224_a))))
     = m_Hleft (msgInput_vector abc_512 (SHA_trunc_new SHA_224_a (take 7 SHA_224_a))) \<and>
   m_setDigest (clearMessage (msgInput_vector abc_512 (SHA_trunc_new SHA_224_a (take 7 SHA_224_a))))
     = m_setDigest (msgInput_vector abc_512 (SHA_trunc_new SHA_224_a (take 7 SHA_224_a))) \<and>
   SHA_trunc.more (clearMessage (msgInput_vector abc_512 (SHA_trunc_new SHA_224_a (take 7 SHA_224_a))))
     = SHA_trunc.more (msgInput_vector abc_512 (SHA_trunc_new SHA_224_a (take 7 SHA_224_a))) \<and>
   fst (SHA_224_digest (clearMessage (msgInput_vector abc_512 (SHA_trunc_new SHA_224_a (take 7 SHA_224_a)))))
     = fst (SHA_224_digest (msgInput_vector abc_512 (SHA_trunc_new SHA_224_a (take 7 SHA_224_a)))) \<and>
   fst (SHA_384_digest (clearMessage (msgInput_vector abc_1024 (SHA_trunc_new SHA_384_a (take 6 SHA_384_a)))))
     = fst (SHA_384_digest (msgInput_vector abc_1024 (SHA_trunc_new SHA_384_a (take 6 SHA_384_a))))"
  by (rule clearMessage_frame)

lemma digest_224_fixed:
  assumes "\<not> m_setDigest t"
  shows "((\<lambda>t. snd (SHA_224_digest t)) ^^ n) t = t"
  using assms by (induction n) (simp_all add: SHA_224_digest_def)

lemma digest_384_fixed:
  assumes "\<not> m_setDigest t"
  shows "((\<lambda>t. snd (SHA_384_digest t)) ^^ n) t = t"
  using assms by (induction n) (simp_all add: SHA_384_digest_def)

lemma digest_224_repeat:
  assumes "m_setDigest s" "length (m_Hleft s) = 7" "7 \<le> length (m_H s)"
  shows "fst (SHA_224_digest (((\<lambda>t. snd (SHA_224_digest t)) ^^ n) s)) = take 7 (m_H s)"
proof (cases n)
  case 0
  then show ?thesis using digest_snapshot [OF assms] by (simp add: SHA_224_digest_def assms(1))
next
  case (Suc k)
  let ?s2 = "snd (SHA_224_digest s)"
  have s2: "\<not> m_setDigest ?s2" "m_Hleft ?s2 = take 7 (m_H s)"
    using digest_snapshot [OF assms] by (simp_all add: SHA_224_digest_def assms(1))
  have "((\<lambda>t. snd (SHA_224_digest t)) ^^ n) s = ((\<lambda>t. snd (SHA_224_digest t)) ^^ k) ?s2"
    unfolding Suc by (simp only: funpow_Suc_right o_apply)
  also have "\<dots> = ?s2" by (rule digest_224_fixed [OF s2(1)])
  finally show ?thesis using s2 by (simp add: SHA_224_digest_def)
qed

lemma digest_384_repeat:
  assumes "m_setDigest s" "length (m_Hleft s) = 6" "6 \<le> length (m_H s)"
  shows "fst (SHA_384_digest (((\<lambda>t. snd (SHA_384_digest t)) ^^ n) s)) = take 6 (m_H s)"
proof (cases n)
  case 0
  then show ?thesis using digest_snapshot [OF assms] by (simp add: SHA_384_digest_def assms(1))
next
  case (Suc k)
  let ?s2 = "snd (SHA_384_digest s)"
  have s2: "\<not> m_setDigest ?s2" "m_Hleft ?s2 = take 6 (m_H s)"
    using digest_snapshot [OF assms] by (simp_all add: SHA_384_digest_def assms(1))
  have "((\<lambda>t. snd (SHA_384_digest t)) ^^ n) s = ((\<lambda>t. snd (SHA_384_digest t)) ^^ k) ?s2"
    unfolding Suc by (simp only: funpow_Suc_right o_apply)
  also have "\<dots> = ?s2" by (rule digest_384_fixed [OF s2(1)])
  finally show ?thesis using s2 by (simp add: SHA_384_digest_def)
qed



lemma SHA_2_run_total_256:
  "\<exists>H. SHA_2_run SHA_256_family ua IV msg = Inr H \<and> length H = length IV"
  unfolding SHA_2_run_def
  by (rule hashBlocks_total) (rule SHA_256_processBlock_total)

lemma SHA_2_run_total_512:
  "\<exists>H. SHA_2_run SHA_512_family ua IV msg = Inr H \<and> length H = length IV"
  unfolding SHA_2_run_def
  by (rule hashBlocks_total) (rule SHA_512_processBlock_total)

lemma computeHash_224_run:
  assumes "inputOK BLOCK_512 s" "length (m_H s) = 8"
    and "SHA_2_run SHA_256_family ua SHA_224_a (m_message s) = Inr H"
  shows "computeHash ua BLOCK_512 (SHA_224_hooks ua) s = Inr (s\<lparr>m_H := H, m_setDigest := True\<rparr>)"
  using computeHash_eq [of BLOCK_512 s "SHA_224_hooks ua" SHA_224_a H ua] assms
  by (simp add: SHA_224_hooks_def initHashValue_sets SHA_2_run_def SHA_224_afterHash_def)

lemma computeHash_384_run:
  assumes "inputOK BLOCK_1024 s" "length (m_H s) = 8"
    and "SHA_2_run SHA_512_family ua SHA_384_a (m_message s) = Inr H"
  shows "computeHash ua BLOCK_1024 (SHA_384_hooks ua) s = Inr (s\<lparr>m_H := H, m_setDigest := True\<rparr>)"
  using computeHash_eq [of BLOCK_1024 s "SHA_384_hooks ua" SHA_384_a H ua] assms
  by (simp add: SHA_384_hooks_def initHashValue_sets_64 SHA_2_run_def SHA_384_afterHash_def)

lemma computeHash_256_run:
  assumes "inputOK BLOCK_512 s" "length (m_H s) = 8"
    and "SHA_2_run SHA_256_family ua SHA_256_a (m_message s) = Inr H"
  shows "computeHash ua BLOCK_512 (SHA_256_hooks ua) s = Inr (s\<lparr>m_H := H\<rparr>)"
  using computeHash_eq [of BLOCK_512 s "SHA_256_hooks ua" SHA_256_a H ua] assms
  by (simp add: SHA_256_hooks_def initHashValue_sets SHA_2_run_def)

lemma computeHash_512_run:
  assumes "inputOK BLOCK_1024 s" "length (m_H s) = 8"
    and "SHA_2_run SHA_512_family ua SHA_512_a (m_message s) = Inr H"
  shows "computeHash ua BLOCK_1024 (SHA_512_hooks ua) s = Inr (s\<lparr>m_H := H\<rparr>)"
  using computeHash_eq [of BLOCK_1024 s "SHA_512_hooks ua" SHA_512_a H ua] assms
  by (simp add: SHA_512_hooks_def initHashValue_sets_64 SHA_2_run_def)

text \<open>
  Claim C1, as the code has it. For every non-empty block-aligned message, \<open>computeHash\<close>
  of SHA-224 returns and \<open>digest\<close> is the first 7 of the 8 words that the block loop of
  SHA-256 produces over the same message when it starts from the initial hash value of
  SHA-224 (\<open>SHA_224::initHashValue\<close>); likewise SHA-384 with the block loop of SHA-512
  started from the initial hash value of SHA-384, first 6 of 8 words. The digests of
  SHA-256 and SHA-512 are the results of the same block loops started from their own
  initial hash values.
\<close>
theorem truncated_digest_refines:
  "(inputOK BLOCK_512 s \<and> length (m_H s) = 8 \<and> length (m_Hleft s) = 7 \<longrightarrow>
      (\<exists>s1 H. computeHash ua BLOCK_512 (SHA_224_hooks ua) s = Inr s1 \<and>
         SHA_2_run SHA_256_family ua SHA_224_a (m_message s) = Inr H \<and> length H = 8 \<and>
         fst (SHA_224_digest s1) = take 7 H)) \<and>
   (inputOK BLOCK_1024 u \<and> length (m_H u) = 8 \<and> length (m_Hleft u) = 6 \<longrightarrow>
      (\<exists>u1 H. computeHash ua BLOCK_1024 (SHA_384_hooks ua) u = Inr u1 \<and>
         SHA_2_run SHA_512_family ua SHA_384_a (m_message u) = Inr H \<and> length H = 8 \<and>
         fst (SHA_384_digest u1) = take 6 H)) \<and>
   (inputOK BLOCK_512 t \<and> length (m_H t) = 8 \<longrightarrow>
      (\<exists>t1 H. computeHash ua BLOCK_512 (SHA_256_hooks ua) t = Inr t1 \<and>
         SHA_2_run SHA_256_family ua SHA_256_a (m_message t) = Inr H \<and>
         SHA_2_digest t1 = H)) \<and>
   (inputOK BLOCK_1024 v \<and> length (m_H v) = 8 \<longrightarrow>
      (\<exists>v1 H. computeHash ua BLOCK_1024 (SHA_512_hooks ua) v = Inr v1 \<and>
         SHA_2_run SHA_512_family ua SHA_512_a (m_message v) = Inr H \<and>
         SHA_2_digest v1 = H))"
proof (intro conjI impI; elim conjE)
  assume a: "inputOK BLOCK_512 s" "length (m_H s) = 8" "length (m_Hleft s) = 7"
  from SHA_2_run_total_256 [of ua SHA_224_a "m_message s"] obtain H
    where H: "SHA_2_run SHA_256_family ua SHA_224_a (m_message s) = Inr H" "length H = 8"
    by (auto simp add: SHA_224_a_def)
  let ?s1 = "s\<lparr>m_H := H, m_setDigest := True\<rparr>"
  have "computeHash ua BLOCK_512 (SHA_224_hooks ua) s = Inr ?s1"
    by (rule computeHash_224_run [OF a(1,2) H(1)])
  moreover have "fst (SHA_224_digest ?s1) = take 7 H"
    using digest_224_repeat [of ?s1 0] a(3) H(2) by simp
  ultimately show "\<exists>s1 H. computeHash ua BLOCK_512 (SHA_224_hooks ua) s = Inr s1 \<and>
         SHA_2_run SHA_256_family ua SHA_224_a (m_message s) = Inr H \<and> length H = 8 \<and>
         fst (SHA_224_digest s1) = take 7 H"
    using H by blast
next
  assume a: "inputOK BLOCK_1024 u" "length (m_H u) = 8" "length (m_Hleft u) = 6"
  from SHA_2_run_total_512 [of ua SHA_384_a "m_message u"] obtain H
    where H: "SHA_2_run SHA_512_family ua SHA_384_a (m_message u) = Inr H" "length H = 8"
    by (auto simp add: SHA_384_a_def)
  let ?u1 = "u\<lparr>m_H := H, m_setDigest := True\<rparr>"
  have "computeHash ua BLOCK_1024 (SHA_384_hooks ua) u = Inr ?u1"
    by (rule computeHash_384_run [OF a(1,2) H(1)])
  moreover have "fst (SHA_384_digest ?u1) = take 6 H"
    using digest_384_repeat [of ?u1 0] a(3) H(2) by simp
  ultimately show "\<exists>u1 H. computeHash ua BLOCK_1024 (SHA_384_hooks ua) u = Inr u1 \<and>
         SHA_2_run SHA_512_family ua SHA_384_a (m_message u) = Inr H \<and> length H = 8 \<and>
         fst (SHA_384_digest u1) = take 6 H"
    using H by blast
next
  assume a: "inputOK BLOCK_512 t" "length (m_H t) = 8"
  from SHA_2_run_total_256 [of ua SHA_256_a "m_message t"] obtain H
    where H: "SHA_2_run SHA_256_family ua SHA_256_a (m_message t) = Inr H"
    by blast
  have "computeHash ua BLOCK_512 (SHA_256_hooks ua) t = Inr (t\<lparr>m_H := H\<rparr>)"
    by (rule computeHash_256_run [OF a H])
  moreover have "SHA_2_digest (t\<lparr>m_H := H\<rparr>) = H" by (simp add: SHA_2_digest_def)
  ultimately show "\<exists>t1 H. computeHash ua BLOCK_512 (SHA_256_hooks ua) t = Inr t1 \<and>
         SHA_2_run SHA_256_family ua SHA_256_a (m_message t) = Inr H \<and>
         SHA_2_digest t1 = H"
    using H by blast
next
  assume a: "inputOK BLOCK_1024 v" "length (m_H v) = 8"
  from SHA_2_run_total_512 [of ua SHA_512_a "m_message v"] obtain H
    where H: "SHA_2_run SHA_512_family ua SHA_512_a (m_message v) = Inr H"
    by blast
  have "computeHash ua BLOCK_1024 (SHA_512_hooks ua) v = Inr (v\<lparr>m_H := H\<rparr>)"
    by (rule computeHash_512_run [OF a H])
  moreover have "SHA_2_digest (v\<lparr>m_H := H\<rparr>) = H" by (simp add: SHA_2_digest_def)
  ultimately show "\<exists>v1 H. computeHash ua BLOCK_1024 (SHA_512_hooks ua) v = Inr v1 \<and>
         SHA_2_run SHA_512_family ua SHA_512_a (m_message v) = Inr H \<and>
         SHA_2_digest v1 = H"
    using H by blast
qed
lemma round_constants_hex:
  "length K_256 = 64" "K_256 ! 0 = 0x428a2f98" "K_256 ! 63 = 0xc67178f2"
  "length K_512 = 80" "K_512 ! 0 = 0x428a2f98d728ae22" "K_512 ! 79 = 0x6c44198c4a475817"
  by code_simp+

lemma abc_prepMsgSchedule:
  "prepMsgSchedule SHA_256_family True abc_512 = Inr abc_schedule"
  by code_simp

lemma abc_rounds_224_a:
  "workingRounds SHA_256_family True abc_schedule [0 ..< 32] SHA_224_a =
     Inr [0xcce1951d, 0x0d7cce07, 0xfe3c8658, 0x2d1576c4,
      0x4be9475c, 0xa4a4a3a4, 0xfc4b36c5, 0x01641929]"
  by code_simp

lemma abc_rounds_224_b:
  "workingRounds SHA_256_family True abc_schedule [32 ..< 64]
     [0xcce1951d, 0x0d7cce07, 0xfe3c8658, 0x2d1576c4,
      0x4be9475c, 0xa4a4a3a4, 0xfc4b36c5, 0x01641929] =
     Inr [0x6203de4a, 0xfd89031b, 0x55d1c760, 0xc693fc7a,
      0x2aedb1b3, 0x55489ee6, 0x7e730e00, 0x13dfb889]"
  by code_simp

lemma abc_rounds_256_a:
  "workingRounds SHA_256_family True abc_schedule [0 ..< 32] SHA_256_a =
     Inr [0x73b33bf5, 0xea992a22, 0xa0060b30, 0x363482c9,
      0xba591112, 0x0109ab3a, 0xade79437, 0x6112a3b7]"
  by code_simp

lemma abc_rounds_256_b:
  "workingRounds SHA_256_family True abc_schedule [32 ..< 64]
     [0x73b33bf5, 0xea992a22, 0xa0060b30, 0x363482c9,
      0xba591112, 0x0109ab3a, 0xade79437, 0x6112a3b7] =
     Inr [0x506e3058, 0xd39a2165, 0x04d24d6c, 0xb85e2ce9,
      0x5ef50f24, 0xfb121210, 0x948d25b6, 0x961f4894]"
  by code_simp

lemma abc_updateHash:
  "updateHash SHA_224_a [0x6203de4a, 0xfd89031b, 0x55d1c760, 0xc693fc7a,
      0x2aedb1b3, 0x55489ee6, 0x7e730e00, 0x13dfb889] =
     [0x23097d22, 0x3405d822, 0x8642a477, 0xbda255b3,
      0x2aadbce4, 0xbda0b3f7, 0xe36c9da7, 0xd2da082d]"
  "updateHash SHA_256_a [0x506e3058, 0xd39a2165, 0x04d24d6c, 0xb85e2ce9,
      0x5ef50f24, 0xfb121210, 0x948d25b6, 0x961f4894] =
     [0xba7816bf, 0x8f01cfea, 0x414140de, 0x5dae2223,
      0xb00361a3, 0x96177a9c, 0xb410ff61, 0xf20015ad]"
  by code_simp+

lemma workingRounds_append:
  "workingRounds fam ua W (ts @ us) v =
     (case workingRounds fam ua W ts v of
        Inl e \<Rightarrow> Inl e
      | Inr v' \<Rightarrow> workingRounds fam ua W us v')"
  by (induction ts arbitrary: v) (simp_all split: sum.splits)

lemma workingLoop_256_halves:
  "workingLoop SHA_256_family ua W v =
     (case workingRounds SHA_256_family ua W [0 ..< 32] v of
        Inl e \<Rightarrow> Inl e
      | Inr v' \<Rightarrow> workingRounds SHA_256_family ua W [32 ..< 64] v')"
proof -
  have "length (K SHA_256_family) = 64" by (simp add: SHA_256_family_def K_256_def)
  moreover have "[0 ..< 64] = [0 ..< 32] @ [32 ..< 64]"
    using upt_add_eq_append [of 0 32 32] by simp
  ultimately show ?thesis by (simp only: workingLoop_def workingRounds_append)
qed

lemma abc_processBlock:
  "processBlock SHA_256_family True abc_512 SHA_224_a =
     Inr [0x23097d22, 0x3405d822, 0x8642a477, 0xbda255b3,
      0x2aadbce4, 0xbda0b3f7, 0xe36c9da7, 0xd2da082d]"
  "processBlock SHA_256_family True abc_512 SHA_256_a =
     Inr [0xba7816bf, 0x8f01cfea, 0x414140de, 0x5dae2223,
      0xb00361a3, 0x96177a9c, 0xb410ff61, 0xf20015ad]"
proof -
  have "initWorkingVars SHA_224_a = SHA_224_a" "initWorkingVars SHA_256_a = SHA_256_a"
    by (simp_all add: initWorkingVars_def SHA_224_a_def SHA_256_a_def)
  then show "processBlock SHA_256_family True abc_512 SHA_224_a =
     Inr [0x23097d22, 0x3405d822, 0x8642a477, 0xbda255b3,
      0x2aadbce4, 0xbda0b3f7, 0xe36c9da7, 0xd2da082d]"
    "processBlock SHA_256_family True abc_512 SHA_256_a =
     Inr [0xba7816bf, 0x8f01cfea, 0x414140de, 0x5dae2223,
      0xb00361a3, 0x96177a9c, 0xb410ff61, 0xf20015ad]"
    by (simp_all only: processBlock_def abc_prepMsgSchedule workingLoop_256_halves
        abc_rounds_224_a abc_rounds_224_b abc_rounds_256_a abc_rounds_256_b abc_updateHash
        sum.case)
qed

lemma abc_run:
  "SHA_2_run SHA_256_family True SHA_224_a abc_512 =
     Inr [0x23097d22, 0x3405d822, 0x8642a477, 0xbda255b3,
      0x2aadbce4, 0xbda0b3f7, 0xe36c9da7, 0xd2da082d]"
  "SHA_2_run SHA_256_family True SHA_256_a abc_512 =
     Inr [0xba7816bf, 0x8f01cfea, 0x414140de, 0x5dae2223,
      0xb00361a3, 0x96177a9c, 0xb410ff61, 0xf20015ad]"
proof -
  have "length abc_512 = 16" by (simp add: abc_512_def)
  then have "blocksOf (length abc_512 div 16) abc_512 = [abc_512]" by simp
  then show "SHA_2_run SHA_256_family True SHA_224_a abc_512 =
     Inr [0x23097d22, 0x3405d822, 0x8642a477, 0xbda255b3,
      0x2aadbce4, 0xbda0b3f7, 0xe36c9da7, 0xd2da082d]"
    "SHA_2_run SHA_256_family True SHA_256_a abc_512 =
     Inr [0xba7816bf, 0x8f01cfea, 0x414140de, 0x5dae2223,
      0xb00361a3, 0x96177a9c, 0xb410ff61, 0xf20015ad]"
    by (simp_all add: SHA_2_run_def abc_processBlock)
qed
lemma abc_computeHash_224:
  "computeHash True BLOCK_512 (SHA_224_hooks True)
     (msgInput_vector abc_512 (SHA_trunc_new (replicate 8 0) (replicate 7 0))) =
   Inr ((msgInput_vector abc_512 (SHA_trunc_new (replicate 8 0) (replicate 7 0)))
     \<lparr>m_H := [0x23097d22, 0x3405d822, 0x8642a477, 0xbda255b3,
      0x2aadbce4, 0xbda0b3f7, 0xe36c9da7, 0xd2da082d],
      m_setDigest := True\<rparr>)"
  by (rule computeHash_224_run) (simp_all add: fresh_engine_512 abc_run)

lemma abc_computeHash_256:
  "computeHash True BLOCK_512 (SHA_256_hooks True)
     (msgInput_vector abc_512 (SHA_2_new (replicate 8 0))) =
   Inr ((msgInput_vector abc_512 (SHA_2_new (replicate 8 0)))
     \<lparr>m_H := [0xba7816bf, 0x8f01cfea, 0x414140de, 0x5dae2223,
      0xb00361a3, 0x96177a9c, 0xb410ff61, 0xf20015ad]\<rparr>)"
  by (rule computeHash_256_run) (simp_all add: fresh_engine_512 abc_run)

text \<open>
  Claim C1 as stated fails on the padded one-block message of \<open>abc\<close>: the SHA-224
  digest is not the first 7 words of the SHA-256 digest of the same padded message.
  The two values are the digests that FIPS 180-4 publishes for \<open>abc\<close>.
\<close>
theorem truncation_counterexample:
  "SHA_224_hash True (replicate 8 0) (replicate 7 0) abc_512 =
     Inr [0x23097d22, 0x3405d822, 0x8642a477, 0xbda255b3,
      0x2aadbce4, 0xbda0b3f7, 0xe36c9da7] \<and>
   SHA_256_hash True (replicate 8 0) abc_512 =
     Inr [0xba7816bf, 0x8f01cfea, 0x414140de, 0x5dae2223,
      0xb00361a3, 0x96177a9c, 0xb410ff61, 0xf20015ad] \<and>
   ([0x23097d22, 0x3405d822, 0x8642a477, 0xbda255b3,
      0x2aadbce4, 0xbda0b3f7, 0xe36c9da7] :: 32 word list) \<noteq>
   take 7 [0xba7816bf, 0x8f01cfea, 0x414140de, 0x5dae2223,
      0xb00361a3, 0x96177a9c, 0xb410ff61, 0xf20015ad]"
proof (intro conjI)
  let ?s1 = "(msgInput_vector abc_512 (SHA_trunc_new (replicate 8 0) (replicate 7 0)))
     \<lparr>m_H := [0x23097d22, 0x3405d822, 0x8642a477, 0xbda255b3,
      0x2aadbce4, 0xbda0b3f7, 0xe36c9da7, 0xd2da082d],
      m_setDigest := True\<rparr>"
  have "fst (SHA_224_digest ?s1) = take 7 (m_H ?s1)"
    using digest_224_repeat [of ?s1 0] by (simp add: fresh_engine_512)
  then show "SHA_224_hash True (replicate 8 0) (replicate 7 0) abc_512 =
     Inr [0x23097d22, 0x3405d822, 0x8642a477, 0xbda255b3,
      0x2aadbce4, 0xbda0b3f7, 0xe36c9da7]"
    by (simp add: SHA_224_hash_def abc_computeHash_224)
  show "SHA_256_hash True (replicate 8 0) abc_512 =
     Inr [0xba7816bf, 0x8f01cfea, 0x414140de, 0x5dae2223,
      0xb00361a3, 0x96177a9c, 0xb410ff61, 0xf20015ad]"
    by (simp add: SHA_256_hash_def abc_computeHash_256 SHA_2_digest_def)
  show "([0x23097d22, 0x3405d822, 0x8642a477, 0xbda255b3,
      0x2aadbce4, 0xbda0b3f7, 0xe36c9da7] :: 32 word list) \<noteq>
   take 7 [0xba7816bf, 0x8f01cfea, 0x414140de, 0x5dae2223,
      0xb00361a3, 0x96177a9c, 0xb410ff61, 0xf20015ad]"
    by simp
qed

theorem truncated_digest_refines_witness:
  "(inputOK BLOCK_512 (msgInput_vector abc_512 (SHA_trunc_new (replicate 8 (0 :: 32 word)) (replicate 7 0))) \<and>
    length (m_H (msgInput_vector abc_512 (SHA_trunc_new (replicate 8 0) (replicate 7 0)))) = 8 \<and>
    length (m_Hleft (msgInput_vector abc_512 (SHA_trunc_new (replicate 8 0) (replicate 7 0)))) = 7) \<and>
   (\<exists>s1 H. computeHash True BLOCK_512 (SHA_224_hooks True)
              (msgInput_vector abc_512 (SHA_trunc_new (replicate 8 0) (replicate 7 0))) = Inr s1 \<and>
      SHA_2_run SHA_256_family True SHA_224_a
        (m_message (msgInput_vector abc_512 (SHA_trunc_new (replicate 8 0) (replicate 7 0)))) = Inr H \<and>
      length H = 8 \<and> fst (SHA_224_digest s1) = take 7 H) \<and>
   (inputOK BLOCK_1024 (msgInput_vector abc_1024 (SHA_trunc_new (replicate 8 (0 :: 64 word)) (replicate 6 0))) \<and>
    length (m_H (msgInput_vector abc_1024 (SHA_trunc_new (replicate 8 0) (replicate 6 0)))) = 8 \<and>
    length (m_Hleft (msgInput_vector abc_1024 (SHA_trunc_new (replicate 8 0) (replicate 6 0)))) = 6) \<and>
   (\<exists>u1 H. computeHash True BLOCK_1024 (SHA_384_hooks True)
              (msgInput_vector abc_1024 (SHA_trunc_new (replicate 8 0) (replicate 6 0))) = Inr u1 \<and>
      SHA_2_run SHA_512_family True SHA_384_a
        (m_message (msgInput_vector abc_1024 (SHA_trunc_new (replicate 8 0) (replicate 6 0)))) = Inr H \<and>
      length H = 8 \<and> fst (SHA_384_digest u1) = take 6 H) \<and>
   (inputOK BLOCK_512 (msgInput_vector abc_512 (SHA_2_new (replicate 8 0))) \<and>
    length (m_H (msgInput_vector abc_512 (SHA_2_new (replicate 8 0)))) = 8) \<and>
   (\<exists>t1 H. computeHash True BLOCK_512 (SHA_256_hooks True)
              (msgInput_vector abc_512 (SHA_2_new (replicate 8 0))) = Inr t1 \<and>
      SHA_2_run SHA_256_family True SHA_256_a
        (m_message (msgInput_vector abc_512 (SHA_2_new (replicate 8 0)))) = Inr H \<and>
      SHA_2_digest t1 = H) \<and>
   (inputOK BLOCK_1024 (msgInput_vector abc_1024 (SHA_2_new (replicate 8 0))) \<and>
    length (m_H (msgInput_vector abc_1024 (SHA_2_new (replicate 8 0)))) = 8) \<and>
   (\<exists>v1 H. computeHash True BLOCK_1024 (SHA_512_hooks True)
              (msgInput_vector abc_1024 (SHA_2_new (replicate 8 0))) = Inr v1 \<and>
      SHA_2_run SHA_512_family True SHA_512_a
        (m_message (msgInput_vector abc_1024 (SHA_2_new (replicate 8 0)))) = Inr H \<and>
      SHA_2_digest v1 = H)"
proof -
  let ?s = "msgInput_vector abc_512 (SHA_trunc_new (replicate 8 (0 :: 32 word)) (replicate 7 0))"
  let ?u = "msgInput_vector abc_1024 (SHA_trunc_new (replicate 8 (0 :: 64 word)) (replicate 6 0))"
  let ?t = "msgInput_vector abc_512 (SHA_2_new (replicate 8 0))"
  let ?v = "msgInput_vector abc_1024 (SHA_2_new (replicate 8 0))"
  have hs: "inputOK BLOCK_512 ?s \<and> length (m_H ?s) = 8 \<and> length (m_Hleft ?s) = 7"
    and ht: "inputOK BLOCK_512 ?t \<and> length (m_H ?t) = 8"
    by (simp_all add: fresh_engine_512)
  have hu: "inputOK BLOCK_1024 ?u \<and> length (m_H ?u) = 8 \<and> length (m_Hleft ?u) = 6"
    and hv: "inputOK BLOCK_1024 ?v \<and> length (m_H ?v) = 8"
    by (simp_all add: fresh_engine_1024)
  note r = truncated_digest_refines [of ?s True ?u ?t ?v]
  have cs: "\<exists>s1 H. computeHash True BLOCK_512 (SHA_224_hooks True) ?s = Inr s1 \<and>
      SHA_2_run SHA_256_family True SHA_224_a (m_message ?s) = Inr H \<and>
      length H = 8 \<and> fst (SHA_224_digest s1) = take 7 H"
    by (rule mp [OF conjunct1 [OF r] hs])
  have cu: "\<exists>u1 H. computeHash True BLOCK_1024 (SHA_384_hooks True) ?u = Inr u1 \<and>
      SHA_2_run SHA_512_family True SHA_384_a (m_message ?u) = Inr H \<and>
      length H = 8 \<and> fst (SHA_384_digest u1) = take 6 H"
    by (rule mp [OF conjunct1 [OF conjunct2 [OF r]] hu])
  have ct: "\<exists>t1 H. computeHash True BLOCK_512 (SHA_256_hooks True) ?t = Inr t1 \<and>
      SHA_2_run SHA_256_family True SHA_256_a (m_message ?t) = Inr H \<and> SHA_2_digest t1 = H"
    by (rule mp [OF conjunct1 [OF conjunct2 [OF conjunct2 [OF r]]] ht])
  have cv: "\<exists>v1 H. computeHash True BLOCK_1024 (SHA_512_hooks True) ?v = Inr v1 \<and>
      SHA_2_run SHA_512_family True SHA_512_a (m_message ?v) = Inr H \<and> SHA_2_digest v1 = H"
    by (rule mp [OF conjunct2 [OF conjunct2 [OF conjunct2 [OF r]]] hv])
  show ?thesis
    by (rule conjI [OF hs conjI [OF cs conjI [OF hu conjI [OF cu
          conjI [OF ht conjI [OF ct conjI [OF hv cv]]]]]]])
qed


end
